theory Spec2Isabelle
  imports Main
begin

section \<open>Symbols and their classification\<close>

text \<open>
  A Python \<open>str\<close> is a sequence of Unicode code points, so a grammar symbol is a list of
  natural numbers. \<open>lit\<close> embeds an ASCII literal; \<open>EPS\<close> is the one-character string
  of U+03B5 (the marker written in the source), \<open>DOLLAR\<close> is \<open>'$'\<close>.
\<close>

type_synonym pystr = "nat list"
type_synonym sym = pystr

definition lit :: "string \<Rightarrow> pystr" where
  "lit s = map of_char s"

definition EPS :: sym where
  "EPS = [949]"

definition DOLLAR :: sym where
  "DOLLAR = [36]"

text \<open>
  \<open>str.isalpha\<close> and \<open>str.isupper\<close> read the Unicode character database of the
  interpreter. The database is not part of the repository, so it is a parameter of the
  embedding: four predicates on code points (alphabetic, lowercase, titlecase, uppercase).
\<close>

record chardb =
  cp_alpha :: "nat \<Rightarrow> bool"
  cp_lower :: "nat \<Rightarrow> bool"
  cp_title :: "nat \<Rightarrow> bool"
  cp_upper :: "nat \<Rightarrow> bool"

text \<open>\<open>s.isalpha()\<close>: at least one character, and every character alphabetic.\<close>

definition str_isalpha :: "chardb \<Rightarrow> pystr \<Rightarrow> bool" where
  "str_isalpha T s = (s \<noteq> [] \<and> list_all (cp_alpha T) s)"

text \<open>\<open>s.isupper()\<close>: no lowercase or titlecase character, and at least one uppercase one.\<close>

definition str_isupper :: "chardb \<Rightarrow> pystr \<Rightarrow> bool" where
  "str_isupper T s =
     (\<not> list_ex (\<lambda>c. cp_lower T c \<or> cp_title T c) s \<and> list_ex (cp_upper T) s)"

definition is_nonterminal :: "chardb \<Rightarrow> sym \<Rightarrow> bool" where
  "is_nonterminal T sy = (str_isalpha T sy \<and> str_isupper T sy)"

text \<open>
  The part of the database that the examples below use: Basic Latin letters and the
  Greek small letter epsilon. It is used only to evaluate the model at concrete grammars.
\<close>

definition latin_db :: chardb where
  "latin_db = \<lparr>
     cp_alpha = (\<lambda>c. (65 \<le> c \<and> c \<le> 90) \<or> (97 \<le> c \<and> c \<le> 122) \<or> c = 949),
     cp_lower = (\<lambda>c. (97 \<le> c \<and> c \<le> 122) \<or> c = 949),
     cp_title = (\<lambda>c. False),
     cp_upper = (\<lambda>c. 65 \<le> c \<and> c \<le> 90) \<rparr>"

section \<open>The Grammar object\<close>

text \<open>
  \<open>productions\<close> is a dict that the methods iterate in insertion order, so it is an
  association list; \<open>productions.get(X, [])\<close> is \<open>alternatives\<close>. No method assigns
  \<open>productions\<close> or \<open>start\<close> after construction, so they are kept apart from the four
  caches, which every method takes and returns.
\<close>

record grammar =
  productions :: "(sym \<times> sym list list) list"
  start :: sym

record caches =
  first_cache :: "sym \<rightharpoonup> sym set"
  first_rhs_cache :: "sym list \<rightharpoonup> sym set"
  nullable_cache :: "sym list \<rightharpoonup> bool"
  follow_cache :: "sym \<rightharpoonup> sym set"

datatype error = KeyError sym

definition empty_caches :: caches where
  "empty_caches = \<lparr> first_cache = Map.empty, first_rhs_cache = Map.empty,
                     nullable_cache = Map.empty, follow_cache = Map.empty \<rparr>"

text \<open>\<open>Grammar.__init__\<close>: stores its two arguments and creates four empty caches.\<close>

definition Grammar_init ::
  "(sym \<times> sym list list) list \<Rightarrow> sym \<Rightarrow> error + (grammar \<times> caches)" where
  "Grammar_init prods st = Inr (\<lparr> productions = prods, start = st \<rparr>, empty_caches)"

definition alternatives :: "grammar \<Rightarrow> sym \<Rightarrow> sym list list" where
  "alternatives g X = (case map_of (productions g) X of None \<Rightarrow> [] | Some alts \<Rightarrow> alts)"

section \<open>FIRST\<close>

text \<open>
  \<open>first\<close> and \<open>first_of_rhs\<close> call each other, threading the caches. The first
  argument bounds the depth of the call stack, as the recursion limit of the interpreter
  does: \<open>None\<close> means that the bound was too small, so a result \<open>Some\<close> says that the
  call returns. Neither method has a \<open>raise\<close> or a subscript that can miss its key.

  In \<open>first\<close> the set \<open>result\<close> is the very object stored in \<open>_first_cache[X]\<close>
  before the loop, so every update of \<open>result\<close> is seen by a nested call that looks
  \<open>X\<close> up; \<open>first_loop\<close> therefore stores the updated set under \<open>X\<close> after each
  alternative. The sets returned by \<open>first\<close> and \<open>first_of_rhs\<close> are read by their
  callers before any further call, so they are passed by value.
\<close>

function (sequential) first :: "nat \<Rightarrow> chardb \<Rightarrow> grammar \<Rightarrow> sym \<Rightarrow> caches \<Rightarrow> (sym set \<times> caches) option"
and first_loop ::
  "nat \<Rightarrow> chardb \<Rightarrow> grammar \<Rightarrow> sym \<Rightarrow> sym list list \<Rightarrow> sym set \<Rightarrow> caches
     \<Rightarrow> (sym set \<times> caches) option"
and first_of_rhs ::
  "nat \<Rightarrow> chardb \<Rightarrow> grammar \<Rightarrow> sym list \<Rightarrow> caches \<Rightarrow> (sym set \<times> caches) option"
and rhs_loop ::
  "nat \<Rightarrow> chardb \<Rightarrow> grammar \<Rightarrow> sym list \<Rightarrow> sym set \<Rightarrow> caches
     \<Rightarrow> (sym set \<times> caches) option"
where
  "first 0 T g X s = None"
| "first (Suc n) T g X s =
     (case first_cache s X of
        Some r \<Rightarrow> Some (r, s)
      | None \<Rightarrow>
          (case first_loop n T g X (alternatives g X) {}
                  (s\<lparr>first_cache := (first_cache s)(X \<mapsto> {})\<rparr>) of
             None \<Rightarrow> None
           | Some (result, s') \<Rightarrow>
               Some (result, s'\<lparr>first_cache := (first_cache s')(X \<mapsto> result)\<rparr>)))"
| "first_loop n T g X [] result s = Some (result, s)"
| "first_loop n T g X (alpha # alphas) result s =
     (case first_of_rhs n T g alpha s of
        None \<Rightarrow> None
      | Some (first_alpha, s1) \<Rightarrow>
          (let result' = (result \<union> (first_alpha - {EPS}))
                           \<union> (if EPS \<in> first_alpha then {EPS} else {})
           in first_loop n T g X alphas result'
                (s1\<lparr>first_cache := (first_cache s1)(X \<mapsto> result')\<rparr>)))"
| "first_of_rhs 0 T g rhs s = None"
| "first_of_rhs (Suc n) T g rhs s =
     (case first_rhs_cache s rhs of
        Some r \<Rightarrow> Some (r, s)
      | None \<Rightarrow>
          if length rhs = 0
          then Some ({EPS}, s\<lparr>first_rhs_cache := (first_rhs_cache s)(rhs \<mapsto> {EPS})\<rparr>)
          else (case rhs_loop n T g rhs {} s of
                  None \<Rightarrow> None
                | Some (result, s') \<Rightarrow>
                    Some (result,
                          s'\<lparr>first_rhs_cache := (first_rhs_cache s')(rhs \<mapsto> result)\<rparr>)))"
| "rhs_loop n T g [] result s = Some (insert EPS result, s)"
| "rhs_loop n T g (sy # rest) result s =
     (if \<not> is_nonterminal T sy then Some (insert sy result, s)
      else (case first n T g sy s of
              None \<Rightarrow> None
            | Some (first_sym, s1) \<Rightarrow>
                (let result' = result \<union> (first_sym - {EPS})
                 in if EPS \<in> first_sym then rhs_loop n T g rest result' s1
                    else Some (result', s1))))"
  by pat_completeness auto

text \<open>
  The depth bound decreases from \<open>first\<close> to its loop and from \<open>first_of_rhs\<close> to its
  loop; the loops run down their lists.
\<close>

termination
  by (relation "measures
       [\<lambda>x. case x of
          Inl (Inl (n, T, g, X, s)) \<Rightarrow> n
        | Inl (Inr (n, T, g, X, alts, r, s)) \<Rightarrow> n
        | Inr (Inl (n, T, g, rhs, s)) \<Rightarrow> n
        | Inr (Inr (n, T, g, rhs, r, s)) \<Rightarrow> n,
        \<lambda>x. case x of
          Inl (Inl (n, T, g, X, s)) \<Rightarrow> 0
        | Inl (Inr (n, T, g, X, alts, r, s)) \<Rightarrow> Suc (length alts)
        | Inr (Inl (n, T, g, rhs, s)) \<Rightarrow> 0
        | Inr (Inr (n, T, g, rhs, r, s)) \<Rightarrow> Suc (length rhs)]") auto

definition derives_epsilon ::
  "nat \<Rightarrow> chardb \<Rightarrow> grammar \<Rightarrow> sym list \<Rightarrow> caches \<Rightarrow> (bool \<times> caches) option" where
  "derives_epsilon n T g rhs s =
     (case first_of_rhs n T g rhs s of
        None \<Rightarrow> None
      | Some (r, s') \<Rightarrow> Some (EPS \<in> r, s'))"

section \<open>FOLLOW\<close>

text \<open>The first loop of \<open>follow_all\<close>: \<open>setdefault(nt, set())\<close> for every key.\<close>

fun setdefault_all :: "sym list \<Rightarrow> (sym \<rightharpoonup> sym set) \<Rightarrow> (sym \<rightharpoonup> sym set)" where
  "setdefault_all [] m = m"
| "setdefault_all (nt # nts) m =
     setdefault_all nts (case m nt of None \<Rightarrow> m(nt \<mapsto> {}) | Some v \<Rightarrow> m)"

text \<open>
  The body of the innermost loop for a nonterminal \<open>B\<close> followed by \<open>rest\<close> in a
  production of \<open>A\<close>. Each subscript of \<open>_follow_cache\<close> raises \<open>KeyError\<close> on a
  missing key. \<open>FOLLOW(A)\<close> is read after \<open>FOLLOW(B)\<close> was extended, as in the source.
\<close>

definition propagate ::
  "nat \<Rightarrow> chardb \<Rightarrow> grammar \<Rightarrow> sym \<Rightarrow> sym \<Rightarrow> sym list \<Rightarrow> bool \<Rightarrow> caches
     \<Rightarrow> (error + bool \<times> caches) option" where
  "propagate n T g A B rest changed s =
     (case first_of_rhs n T g rest s of
        None \<Rightarrow> None
      | Some (first_rest, s1) \<Rightarrow>
          (case follow_cache s1 B of
             None \<Rightarrow> Some (Inl (KeyError B))
           | Some before_B \<Rightarrow>
               (let fb = before_B \<union> (first_rest - {EPS});
                    s2 = s1\<lparr>follow_cache := (follow_cache s1)(B \<mapsto> fb)\<rparr>
                in if EPS \<in> first_rest \<or> length rest = 0
                   then (case follow_cache s2 A of
                           None \<Rightarrow> Some (Inl (KeyError A))
                         | Some fa \<Rightarrow>
                             Some (Inr (changed \<or> fb \<union> fa \<noteq> before_B,
                                        s2\<lparr>follow_cache := (follow_cache s2)(B \<mapsto> fb \<union> fa)\<rparr>)))
                   else Some (Inr (changed \<or> fb \<noteq> before_B, s2)))))"

text \<open>\<open>for i, B in enumerate(symbols)\<close>: \<open>symbols[i+1:]\<close> is the tail of the list.\<close>

fun follow_symbols ::
  "nat \<Rightarrow> chardb \<Rightarrow> grammar \<Rightarrow> sym \<Rightarrow> sym list \<Rightarrow> bool \<Rightarrow> caches
     \<Rightarrow> (error + bool \<times> caches) option" where
  "follow_symbols n T g A [] changed s = Some (Inr (changed, s))"
| "follow_symbols n T g A (B # rest) changed s =
     (if \<not> is_nonterminal T B then follow_symbols n T g A rest changed s
      else (case propagate n T g A B rest changed s of
              None \<Rightarrow> None
            | Some (Inl e) \<Rightarrow> Some (Inl e)
            | Some (Inr (changed', s')) \<Rightarrow> follow_symbols n T g A rest changed' s'))"

text \<open>\<open>for rhs in rhss\<close>.\<close>

fun follow_rhss ::
  "nat \<Rightarrow> chardb \<Rightarrow> grammar \<Rightarrow> sym \<Rightarrow> sym list list \<Rightarrow> bool \<Rightarrow> caches
     \<Rightarrow> (error + bool \<times> caches) option" where
  "follow_rhss n T g A [] changed s = Some (Inr (changed, s))"
| "follow_rhss n T g A (rhs # rhss) changed s =
     (case follow_symbols n T g A rhs changed s of
        None \<Rightarrow> None
      | Some (Inl e) \<Rightarrow> Some (Inl e)
      | Some (Inr (changed', s')) \<Rightarrow> follow_rhss n T g A rhss changed' s')"

text \<open>\<open>for A, rhss in self.productions.items()\<close>: one pass of the fixed-point loop.\<close>

fun follow_pass ::
  "nat \<Rightarrow> chardb \<Rightarrow> grammar \<Rightarrow> (sym \<times> sym list list) list \<Rightarrow> bool \<Rightarrow> caches
     \<Rightarrow> (error + bool \<times> caches) option" where
  "follow_pass n T g [] changed s = Some (Inr (changed, s))"
| "follow_pass n T g ((A, rhss) # ps) changed s =
     (case follow_rhss n T g A rhss changed s of
        None \<Rightarrow> None
      | Some (Inl e) \<Rightarrow> Some (Inl e)
      | Some (Inr (changed', s')) \<Rightarrow> follow_pass n T g ps changed' s')"

text \<open>
  \<open>while changed\<close>: the first argument bounds the number of passes, the second the depth
  of the calls of \<open>first_of_rhs\<close>.
\<close>

fun follow_while ::
  "nat \<Rightarrow> nat \<Rightarrow> chardb \<Rightarrow> grammar \<Rightarrow> caches \<Rightarrow> (error + caches) option" where
  "follow_while 0 n T g s = None"
| "follow_while (Suc k) n T g s =
     (case follow_pass n T g (productions g) False s of
        None \<Rightarrow> None
      | Some (Inl e) \<Rightarrow> Some (Inl e)
      | Some (Inr (changed, s')) \<Rightarrow>
          if changed then follow_while k n T g s' else Some (Inr s'))"

text \<open>
  \<open>follow_all\<close> returns the dict \<open>_follow_cache\<close> itself; the model returns its value
  together with the caches.
\<close>

definition follow_all ::
  "nat \<Rightarrow> chardb \<Rightarrow> grammar \<Rightarrow> caches \<Rightarrow> (error + (sym \<rightharpoonup> sym set) \<times> caches) option" where
  "follow_all n T g s =
     (let s0 = s\<lparr>follow_cache := setdefault_all (map fst (productions g)) (follow_cache s)\<rparr>
      in case follow_cache s0 (start g) of
           None \<Rightarrow> Some (Inl (KeyError (start g)))
         | Some fs \<Rightarrow>
             (case follow_while n n T g
                     (s0\<lparr>follow_cache := (follow_cache s0)(start g \<mapsto> insert DOLLAR fs)\<rparr>) of
                None \<Rightarrow> None
              | Some (Inl e) \<Rightarrow> Some (Inl e)
              | Some (Inr s') \<Rightarrow> Some (Inr (follow_cache s', s'))))"

section \<open>Prediction sets\<close>

text \<open>\<open>sep.join(xs)\<close>.\<close>

fun join :: "pystr \<Rightarrow> pystr list \<Rightarrow> pystr" where
  "join sep [] = []"
| "join sep [x] = x"
| "join sep (x # y # ys) = x @ sep @ join sep (y # ys)"

text \<open>The key \<open>f"{A} -> {' '.join(rhs) if rhs else '\<epsilon>'}"\<close>.\<close>

definition key :: "sym \<Rightarrow> sym list \<Rightarrow> pystr" where
  "key A rhs = A @ lit '' -> '' @ (if rhs \<noteq> [] then join (lit '' '') rhs else EPS)"

text \<open>
  The inner loop of \<open>prediction_sets\<close>. The local \<open>follow_all\<close> is the dict
  \<open>_follow_cache\<close> itself, so \<open>follow_all[A]\<close> reads the follow cache of the current state.
\<close>

fun pred_rhss ::
  "nat \<Rightarrow> chardb \<Rightarrow> grammar \<Rightarrow> sym \<Rightarrow> sym list list \<Rightarrow> (pystr \<rightharpoonup> sym set) \<Rightarrow> caches
     \<Rightarrow> (error + (pystr \<rightharpoonup> sym set) \<times> caches) option" where
  "pred_rhss n T g A [] preds s = Some (Inr (preds, s))"
| "pred_rhss n T g A (rhs # rhss) preds s =
     (case first_of_rhs n T g rhs s of
        None \<Rightarrow> None
      | Some (first_rhs, s1) \<Rightarrow>
          (let pred = first_rhs - {EPS}
           in if EPS \<in> first_rhs
              then (case follow_cache s1 A of
                      None \<Rightarrow> Some (Inl (KeyError A))
                    | Some fa \<Rightarrow>
                        pred_rhss n T g A rhss (preds(key A rhs \<mapsto> pred \<union> fa)) s1)
              else pred_rhss n T g A rhss (preds(key A rhs \<mapsto> pred)) s1))"

fun pred_prods ::
  "nat \<Rightarrow> chardb \<Rightarrow> grammar \<Rightarrow> (sym \<times> sym list list) list \<Rightarrow> (pystr \<rightharpoonup> sym set) \<Rightarrow> caches
     \<Rightarrow> (error + (pystr \<rightharpoonup> sym set) \<times> caches) option" where
  "pred_prods n T g [] preds s = Some (Inr (preds, s))"
| "pred_prods n T g ((A, rhss) # ps) preds s =
     (case pred_rhss n T g A rhss preds s of
        None \<Rightarrow> None
      | Some (Inl e) \<Rightarrow> Some (Inl e)
      | Some (Inr (preds', s')) \<Rightarrow> pred_prods n T g ps preds' s')"

definition prediction_sets ::
  "nat \<Rightarrow> chardb \<Rightarrow> grammar \<Rightarrow> caches \<Rightarrow> (error + (pystr \<rightharpoonup> sym set) \<times> caches) option" where
  "prediction_sets n T g s =
     (case follow_all n T g s of
        None \<Rightarrow> None
      | Some (Inl e) \<Rightarrow> Some (Inl e)
      | Some (Inr (fo, s1)) \<Rightarrow> pred_prods n T g (productions g) Map.empty s1)"

section \<open>Auxiliary notions\<close>

text \<open>The left-recursive grammar \<open>S \<rightarrow> S a | b\<close>.\<close>

definition G_leftrec :: grammar where
  "G_leftrec =
     \<lparr> productions = [(lit ''S'', [[lit ''S'', lit ''a''], [lit ''b'']])], start = lit ''S'' \<rparr>"

text \<open>
  What a call of \<open>first\<close> or \<open>first_of_rhs\<close> may do to the caches: the follow cache and
  the nullable cache are untouched, the first cache keeps its keys, and the sequence cache
  keeps its entries.
\<close>

definition cache_ext :: "caches \<Rightarrow> caches \<Rightarrow> bool" where
  "cache_ext s s' \<longleftrightarrow>
     follow_cache s' = follow_cache s \<and> nullable_cache s' = nullable_cache s \<and>
     dom (first_cache s) \<subseteq> dom (first_cache s') \<and>
     (\<forall>k v. first_rhs_cache s k = Some v \<longrightarrow> first_rhs_cache s' k = Some v)"

text \<open>
  In every state that the methods produce, a symbol that is not a key of \<open>productions\<close>
  has the empty set as its entry of the first cache, if it has one.
\<close>

definition nonkey_ok :: "grammar \<Rightarrow> caches \<Rightarrow> bool" where
  "nonkey_ok g s \<longleftrightarrow>
     (\<forall>X S. map_of (productions g) X = None \<longrightarrow> first_cache s X = Some S \<longrightarrow> S = {})"

text \<open>
  The scan of a sequence as the specification words it: the symbols are visited from left
  to right with a flag that records that the scan has stopped; a terminal is added and
  stops the scan; a nonterminal contributes \<open>first(symbol) - {\<epsilon>}\<close> and stops the scan
  unless \<open>\<epsilon> \<in> first(symbol)\<close>; \<open>\<epsilon>\<close> is added when the scan never stopped.
\<close>

definition scan_step ::
  "nat \<Rightarrow> chardb \<Rightarrow> grammar \<Rightarrow> (sym set \<times> bool \<times> caches) option \<Rightarrow> sym
     \<Rightarrow> (sym set \<times> bool \<times> caches) option" where
  "scan_step n T g st sy =
     (case st of
        None \<Rightarrow> None
      | Some (res, stopped, s) \<Rightarrow>
          if stopped then Some (res, stopped, s)
          else if \<not> is_nonterminal T sy then Some (insert sy res, True, s)
          else (case first n T g sy s of
                  None \<Rightarrow> None
                | Some (fs, s1) \<Rightarrow> Some (res \<union> (fs - {EPS}), EPS \<notin> fs, s1)))"

definition first_of_sequence_spec ::
  "nat \<Rightarrow> chardb \<Rightarrow> grammar \<Rightarrow> sym list \<Rightarrow> caches \<Rightarrow> (sym set \<times> caches) option" where
  "first_of_sequence_spec n T g \<alpha> s =
     (if \<alpha> = [] then Some ({EPS}, s)
      else (case foldl (scan_step n T g) (Some ({}, False, s)) \<alpha> of
              None \<Rightarrow> None
            | Some (res, stopped, s') \<Rightarrow> Some (if stopped then res else insert EPS res, s')))"

text \<open>The caches of the grammar \<open>S \<rightarrow> S a | b\<close> after \<open>first('S')\<close> on a fresh analyzer.\<close>

definition leftrec_caches :: caches where
  "leftrec_caches =
     \<lparr> first_cache = [lit ''S'' \<mapsto> {lit ''b''}],
       first_rhs_cache = [[lit ''S'', lit ''a''] \<mapsto> {}, [lit ''b''] \<mapsto> {lit ''b''}],
       nullable_cache = Map.empty, follow_cache = Map.empty \<rparr>"

text \<open>
  The order on follow maps: every key stays, and its set can only grow.
\<close>

definition fo_le :: "(sym \<rightharpoonup> sym set) \<Rightarrow> (sym \<rightharpoonup> sym set) \<Rightarrow> bool" where
  "fo_le m m' \<longleftrightarrow> (\<forall>X S. m X = Some S \<longrightarrow> (\<exists>S'. m' X = Some S' \<and> S \<subseteq> S'))"

text \<open>
  The grammar \<open>S \<rightarrow> A b | c\<close>, \<open>A \<rightarrow> \<epsilon>\<close> of the specification's concrete scenario, its caches
  after the seeding of \<open>follow_all\<close>, and its caches after the first propagation step,
  which are also the caches when \<open>follow_all\<close> returns.
\<close>

definition G_ab :: grammar where
  "G_ab = \<lparr> productions = [(lit ''S'', [[lit ''A'', lit ''b''], [lit ''c'']]), (lit ''A'', [[EPS]])],
            start = lit ''S'' \<rparr>"

definition G_ab_seeded :: caches where
  "G_ab_seeded = \<lparr> first_cache = Map.empty, first_rhs_cache = Map.empty,
       nullable_cache = Map.empty,
       follow_cache = [lit ''S'' \<mapsto> {DOLLAR}, lit ''A'' \<mapsto> {}] \<rparr>"

definition G_ab_step :: caches where
  "G_ab_step = \<lparr> first_cache = Map.empty, first_rhs_cache = [[lit ''b''] \<mapsto> {lit ''b''}],
       nullable_cache = Map.empty,
       follow_cache = [lit ''S'' \<mapsto> {DOLLAR}, lit ''A'' \<mapsto> {lit ''b''}] \<rparr>"

text \<open>
  The productions of a grammar as pairs of a head and a body, and the composition law of
  a prediction set, read off the caches: \<open>FIRST(\<alpha>)\<close> is the entry of the sequence cache
  and \<open>FOLLOW(A)\<close> the entry of the follow cache.
\<close>

definition all_productions :: "(sym \<times> sym list list) list \<Rightarrow> (sym \<times> sym list) set" where
  "all_productions ps = {(A, rhs). \<exists>alts. (A, alts) \<in> set ps \<and> rhs \<in> set alts}"

definition predict_law :: "caches \<Rightarrow> sym \<Rightarrow> sym list \<Rightarrow> sym set \<Rightarrow> bool" where
  "predict_law s A rhs P \<longleftrightarrow>
     (\<exists>F. first_rhs_cache s rhs = Some F \<and>
          (if EPS \<in> F then (\<exists>FO. follow_cache s A = Some FO \<and> P = (F - {EPS}) \<union> FO)
           else P = F - {EPS}))"

text \<open>
  Every entry of the mapping under construction is the prediction set of a production,
  among \<open>Ps\<close>, that has the entry's key.
\<close>

definition justified ::
  "(sym \<times> sym list) set \<Rightarrow> caches \<Rightarrow> (pystr \<rightharpoonup> sym set) \<Rightarrow> bool" where
  "justified Ps s preds \<longleftrightarrow>
     (\<forall>k v. preds k = Some v \<longrightarrow>
        (\<exists>A rhs. (A, rhs) \<in> Ps \<and> key A rhs = k \<and> predict_law s A rhs v))"

text \<open>No other production of the grammar has the key of \<open>A \<rightarrow> rhs\<close>.\<close>

definition key_unique :: "grammar \<Rightarrow> sym \<Rightarrow> sym list \<Rightarrow> bool" where
  "key_unique g A rhs \<longleftrightarrow>
     (\<forall>A' rhs'. (A', rhs') \<in> all_productions (productions g) \<longrightarrow>
        key A' rhs' = key A rhs \<longrightarrow> A' = A \<and> rhs' = rhs)"

text \<open>
  A grammar with a symbol that contains a space, \<open>A \<rightarrow> 'a b' | a b\<close>, and what
  \<open>prediction_sets\<close> returns for it and for the grammar of the concrete scenario.
\<close>

definition G_sp :: grammar where
  "G_sp = \<lparr> productions = [(lit ''A'', [[lit ''a b''], [lit ''a'', lit ''b'']])],
            start = lit ''A'' \<rparr>"

definition G_sp_caches :: caches where
  "G_sp_caches = \<lparr> first_cache = Map.empty,
       first_rhs_cache = [[lit ''a b''] \<mapsto> {lit ''a b''}, [lit ''a'', lit ''b''] \<mapsto> {lit ''a''}],
       nullable_cache = Map.empty,
       follow_cache = [lit ''A'' \<mapsto> {DOLLAR}] \<rparr>"

definition G_sp_preds :: "pystr \<rightharpoonup> sym set" where
  "G_sp_preds = [lit ''A -> a b'' \<mapsto> {lit ''a''}]"

definition G_ab_final :: caches where
  "G_ab_final = \<lparr> first_cache = [lit ''A'' \<mapsto> {EPS}],
       first_rhs_cache = [[lit ''b''] \<mapsto> {lit ''b''}, [EPS] \<mapsto> {EPS},
                          [lit ''A'', lit ''b''] \<mapsto> {lit ''b''}, [lit ''c''] \<mapsto> {lit ''c''}],
       nullable_cache = Map.empty,
       follow_cache = [lit ''S'' \<mapsto> {DOLLAR}, lit ''A'' \<mapsto> {lit ''b''}] \<rparr>"

definition G_ab_preds :: "pystr \<rightharpoonup> sym set" where
  "G_ab_preds = [key (lit ''S'') [lit ''A'', lit ''b''] \<mapsto> {lit ''b''},
                 key (lit ''S'') [lit ''c''] \<mapsto> {lit ''c''},
                 key (lit ''A'') [EPS] \<mapsto> {lit ''b''}]"

text \<open>
  The symbols that occur in the bodies, the keys of \<open>productions\<close>, and the universe of
  what a FIRST or FOLLOW set of the grammar can contain.
\<close>

definition syms_of :: "grammar \<Rightarrow> sym set" where
  "syms_of g = (\<Union>(A, alts) \<in> set (productions g). \<Union>rhs \<in> set alts. set rhs)"

definition keys_of :: "grammar \<Rightarrow> sym set" where
  "keys_of g = fst ` set (productions g)"

definition universe :: "grammar \<Rightarrow> sym set" where
  "universe g = insert EPS (insert DOLLAR (syms_of g))"

text \<open>
  A structurally valid grammar: the start symbol and every nonterminal of a body are keys.
\<close>

definition valid_grammar :: "chardb \<Rightarrow> grammar \<Rightarrow> bool" where
  "valid_grammar T g \<longleftrightarrow>
     start g \<in> keys_of g \<and> (\<forall>B \<in> syms_of g. is_nonterminal T B \<longrightarrow> B \<in> keys_of g)"

text \<open>
  What the caches of an analyzer hold: subsets of the universe; a cached sequence may add
  its own symbols; the follow cache has entries for keys only. The empty caches are so, and
  the methods keep it.
\<close>

definition caches_ok :: "grammar \<Rightarrow> caches \<Rightarrow> bool" where
  "caches_ok g s \<longleftrightarrow>
     (\<forall>X S. first_cache s X = Some S \<longrightarrow> S \<subseteq> universe g) \<and>
     (\<forall>r S. first_rhs_cache s r = Some S \<longrightarrow> S \<subseteq> universe g \<union> set r) \<and>
     (\<forall>X S. follow_cache s X = Some S \<longrightarrow> X \<in> keys_of g \<and> S \<subseteq> universe g)"

text \<open>
  The number of body symbols that have no entry in the first cache: it bounds the depth of
  the calls of \<open>first\<close> that are still to come.
\<close>

definition uncached :: "grammar \<Rightarrow> caches \<Rightarrow> nat" where
  "uncached g s = card (syms_of g - dom (first_cache s))"

text \<open>
  A call stack of this depth is enough for \<open>first_of_rhs\<close> on a sequence of body symbols.
\<close>

definition depth_bound :: "grammar \<Rightarrow> nat" where
  "depth_bound g = 2 * card (syms_of g) + 2"

text \<open>
  What the follow cache can still gain: the pairs of a key and a member of the universe
  that is not in the entry of the key. The number of these pairs decreases in every pass
  that changes a FOLLOW set.
\<close>

definition missing :: "grammar \<Rightarrow> (sym \<rightharpoonup> sym set) \<Rightarrow> (sym \<times> sym) set" where
  "missing g m = {(K, x). K \<in> keys_of g \<and> x \<in> universe g \<and> (\<forall>S. m K = Some S \<longrightarrow> x \<notin> S)}"

definition deficit :: "grammar \<Rightarrow> caches \<Rightarrow> nat" where
  "deficit g s = card (missing g (follow_cache s))"

text \<open>
  The state of the caches inside the loop of \<open>follow_all\<close>: every key has an entry.
\<close>

definition follow_ready :: "grammar \<Rightarrow> caches \<Rightarrow> bool" where
  "follow_ready g s \<longleftrightarrow> caches_ok g s \<and> keys_of g \<subseteq> dom (follow_cache s)"

text \<open>
  What a part of a pass does: it keeps the state ready, the deficit does not grow, and the
  dirty flag is raised only when the deficit has decreased.
\<close>

definition progress :: "grammar \<Rightarrow> bool \<Rightarrow> caches \<Rightarrow> bool \<Rightarrow> caches \<Rightarrow> bool" where
  "progress g c s c' s' \<longleftrightarrow>
     follow_ready g s' \<and> deficit g s' \<le> deficit g s \<and>
     (c' \<longrightarrow> c \<or> deficit g s' < deficit g s)"

text \<open>
  A number of passes and a depth of the call stack that are enough for \<open>follow_all\<close>.
\<close>

definition follow_bound :: "grammar \<Rightarrow> nat" where
  "follow_bound g = depth_bound g + card (keys_of g) * card (universe g) + 1"

text \<open>The first grammar of the script (\<open>productions1\<close>, start symbol \<open>S\<close>).\<close>

definition G_ej1 :: grammar where
  "G_ej1 = \<lparr> productions =
      [(lit ''S'', [[lit ''A'', lit ''uno'', lit ''B'', lit ''C''], [lit ''S'', lit ''dos'']]),
       (lit ''A'', [[lit ''B'', lit ''C'', lit ''D''], [lit ''A'', lit ''tres''], [EPS]]),
       (lit ''B'', [[lit ''D'', lit ''cuatro'', lit ''C'', lit ''tres'']]),
       (lit ''C'', [[lit ''cinco'', lit ''D'', lit ''B''], [EPS]]),
       (lit ''D'', [[EPS]])],
     start = lit ''S'' \<rparr>"

section \<open>Evaluation at concrete symbols\<close>

lemma latin_db_S:
  "is_nonterminal latin_db (lit ''S'')"
  "\<not> is_nonterminal latin_db (lit ''a'')"
  "\<not> is_nonterminal latin_db (lit ''b'')"
  by (simp_all add: is_nonterminal_def str_isalpha_def str_isupper_def latin_db_def lit_def)

section \<open>The caches only grow\<close>

lemma cache_ext_refl: "cache_ext s s"
  by (simp add: cache_ext_def)

lemma cache_ext_trans: "cache_ext s s1 \<Longrightarrow> cache_ext s1 s2 \<Longrightarrow> cache_ext s s2"
  unfolding cache_ext_def by (simp add: subset_iff domIff)

lemma cache_ext_first_upd:
  "cache_ext s s' \<Longrightarrow> cache_ext s (s'\<lparr>first_cache := (first_cache s')(X \<mapsto> v)\<rparr>)"
  unfolding cache_ext_def by auto

lemma cache_ext_first_upd_left:
  "cache_ext (s\<lparr>first_cache := (first_cache s)(X \<mapsto> v)\<rparr>) s' \<Longrightarrow> cache_ext s s'"
  unfolding cache_ext_def by auto

lemma cache_ext_rhs_upd:
  "cache_ext s s' \<Longrightarrow> first_rhs_cache s k = None \<Longrightarrow>
   cache_ext s (s'\<lparr>first_rhs_cache := (first_rhs_cache s')(k \<mapsto> v)\<rparr>)"
  unfolding cache_ext_def by auto

lemma first_cache_ext:
  "first n T g X s = Some (r, s') \<Longrightarrow> cache_ext s s'"
  "first_loop n T g X alts res s = Some (r, s') \<Longrightarrow> cache_ext s s'"
  "first_of_rhs n T g rhs s = Some (r, s') \<Longrightarrow> cache_ext s s'"
  "rhs_loop n T g rhs res s = Some (r, s') \<Longrightarrow> cache_ext s s'"
proof (induction n T g X s and n T g X alts res s and n T g rhs s and n T g rhs res s
       arbitrary: r s' and r s' and r s' and r s'
       rule: first_first_loop_first_of_rhs_rhs_loop.induct)
  case (1 T g X s)
  then show ?case by simp
next
  case (2 n T g X s)
  show ?case
  proof (cases "first_cache s X")
    case None
    with "2.prems" obtain s1 where
      l: "first_loop n T g X (alternatives g X) {}
            (s\<lparr>first_cache := (first_cache s)(X \<mapsto> {})\<rparr>) = Some (r, s1)"
      and s': "s' = s1\<lparr>first_cache := (first_cache s1)(X \<mapsto> r)\<rparr>"
      by (auto split: option.splits)
    from "2.IH"[OF None l] have "cache_ext s s1" by (rule cache_ext_first_upd_left)
    then show ?thesis unfolding s' by (rule cache_ext_first_upd)
  next
    case (Some a)
    with "2.prems" show ?thesis by (simp add: cache_ext_refl)
  qed
next
  case (3 n T g X result s)
  then show ?case by (simp add: cache_ext_refl)
next
  case (4 n T g X alpha alphas result s)
  from "4.prems" obtain fa s1 where
    a: "first_of_rhs n T g alpha s = Some (fa, s1)"
    and l: "first_loop n T g X alphas
              (result \<union> (fa - {EPS}) \<union> (if EPS \<in> fa then {EPS} else {}))
              (s1\<lparr>first_cache := (first_cache s1)
                    (X \<mapsto> result \<union> (fa - {EPS}) \<union> (if EPS \<in> fa then {EPS} else {}))\<rparr>)
            = Some (r, s')"
    by (auto split: option.splits simp: Let_def)
  from "4.IH"(1)[OF a] have e1: "cache_ext s s1" .
  from "4.IH"(2)[OF a refl refl l] have "cache_ext s1 s'" by (rule cache_ext_first_upd_left)
  with e1 show ?case by (rule cache_ext_trans)
next
  case (5 T g rhs s)
  then show ?case by simp
next
  case (6 n T g rhs s)
  show ?case
  proof (cases "first_rhs_cache s rhs")
    case None
    show ?thesis
    proof (cases "length rhs = 0")
      case True
      with None "6.prems" show ?thesis
        by (auto intro: cache_ext_rhs_upd cache_ext_refl)
    next
      case False
      with None "6.prems" obtain s1 where
        l: "rhs_loop n T g rhs {} s = Some (r, s1)"
        and s': "s' = s1\<lparr>first_rhs_cache := (first_rhs_cache s1)(rhs \<mapsto> r)\<rparr>"
        by (auto split: option.splits)
      from "6.IH"[OF None False l] show ?thesis unfolding s'
        using None by (rule cache_ext_rhs_upd)
    qed
  next
    case (Some a)
    with "6.prems" show ?thesis by (simp add: cache_ext_refl)
  qed
next
  case (7 n T g result s)
  then show ?case by (simp add: cache_ext_refl)
next
  case (8 n T g sy rest result s)
  show ?case
  proof (cases "is_nonterminal T sy")
    case False
    with "8.prems" show ?thesis by (simp add: cache_ext_refl)
  next
    case True
    with "8.prems" obtain fs s1 where
      f: "first n T g sy s = Some (fs, s1)"
      and rest: "if EPS \<in> fs
                 then rhs_loop n T g rest (result \<union> (fs - {EPS})) s1 = Some (r, s')
                 else s' = s1"
      by (auto split: option.splits if_splits simp: Let_def)
    from True have nn: "\<not> \<not> is_nonterminal T sy" by simp
    from "8.IH"(1)[OF nn f] have e1: "cache_ext s s1" .
    show ?thesis
    proof (cases "EPS \<in> fs")
      case True
      with rest have "rhs_loop n T g rest (result \<union> (fs - {EPS})) s1 = Some (r, s')" by simp
      from "8.IH"(2)[OF nn f refl refl True this] e1 show ?thesis
        by (blast intro: cache_ext_trans)
    next
      case False
      with rest e1 show ?thesis by simp
    qed
  qed
qed

section \<open>Left recursion\<close>

text \<open>
  C3. For the grammar \<open>S \<rightarrow> S a | b\<close>, \<open>first('S')\<close> returns, with a call stack of depth
  three, and the set returned is exactly \<open>{b}\<close>: the nested call of \<open>first('S')\<close> finds the
  placeholder and contributes nothing. The hypotheses say how the character database
  classifies the two symbols that the computation tests.
\<close>

theorem first_left_recursion:
  assumes "is_nonterminal T (lit ''S'')" and "\<not> is_nonterminal T (lit ''b'')"
  shows "\<exists>s'. first (Suc (Suc (Suc n))) T G_leftrec (lit ''S'') empty_caches
                = Some ({lit ''b''}, s')
              \<and> first_cache s' (lit ''S'') = Some {lit ''b''}
              \<and> first_rhs_cache s' [lit ''S'', lit ''a''] = Some {}"
  using assms
  by (simp add: G_leftrec_def empty_caches_def alternatives_def Let_def lit_def EPS_def)

theorem first_left_recursion_witness:
  "is_nonterminal latin_db (lit ''S'') \<and> \<not> is_nonterminal latin_db (lit ''b'') \<and>
   (\<exists>s'. first 3 latin_db G_leftrec (lit ''S'') empty_caches = Some ({lit ''b''}, s')
        \<and> first_cache s' (lit ''S'') = Some {lit ''b''}
        \<and> first_rhs_cache s' [lit ''S'', lit ''a''] = Some {})"
  using first_left_recursion[of latin_db 0] latin_db_S
  by (simp add: numeral_3_eq_3)

section \<open>Construction\<close>

lemma setdefault_all_other:
  "k \<notin> set ks \<Longrightarrow> setdefault_all ks m k = m k"
  by (induction ks arbitrary: m) (auto split: option.splits)

text \<open>
  C7, as amended. The constructor has no failure path: for all arguments it returns the
  grammar with four empty caches. A start symbol that is not a key of \<open>productions\<close> is
  noticed only by \<open>follow_all\<close>, which raises \<open>KeyError\<close>.
\<close>

theorem Grammar_init_total:
  "\<exists>g s. Grammar_init prods st = Inr (g, s) \<and> productions g = prods \<and> start g = st \<and>
         s = empty_caches \<and>
         (st \<notin> fst ` set prods \<longrightarrow> follow_all n T g s = Some (Inl (KeyError st)))"
  by (simp add: Grammar_init_def follow_all_def Let_def empty_caches_def setdefault_all_other)

theorem Grammar_init_total_witness:
  "lit ''S'' \<notin> fst ` set [] \<and>
   (\<exists>g s. Grammar_init [] (lit ''S'') = Inr (g, s) \<and>
          follow_all 1 latin_db g s = Some (Inl (KeyError (lit ''S''))))"
  using Grammar_init_total[of "[]" "lit ''S''" 1 latin_db] by auto

text \<open>
  Counterexample to C7 as stated: a grammar whose start symbol is not a key, and whose only
  body mentions the nonterminal \<open>Z\<close> that is not a key either, is constructed without error.
\<close>

theorem Grammar_init_no_validation:
  "Grammar_init [(lit ''A'', [[lit ''Z'']])] (lit ''S'')
     = Inr (\<lparr> productions = [(lit ''A'', [[lit ''Z'']])], start = lit ''S'' \<rparr>, empty_caches)
   \<and> is_nonterminal latin_db (lit ''Z'')
   \<and> map_of [(lit ''A'', [[lit ''Z'']])] (lit ''Z'') = None
   \<and> map_of [(lit ''A'', [[lit ''Z'']])] (lit ''S'') = None"
  by (simp add: Grammar_init_def is_nonterminal_def str_isalpha_def str_isupper_def
        latin_db_def lit_def)

section \<open>Symbols that are not keys\<close>

text \<open>
  C8, as amended. \<open>first\<close> has no failure path: for a symbol that is not a key of
  \<open>productions\<close> it returns a set, with a call stack of depth one.
\<close>

theorem first_unknown_returns:
  "map_of (productions g) X = None \<Longrightarrow> \<exists>r s'. first (Suc n) T g X s = Some (r, s')"
  by (cases "first_cache s X") (simp_all add: alternatives_def)

theorem first_unknown_returns_witness:
  "map_of (productions G_leftrec) (lit ''X'') = None \<and>
   (\<exists>r s'. first (Suc 0) latin_db G_leftrec (lit ''X'') empty_caches = Some (r, s'))"
  using first_unknown_returns[of G_leftrec "lit ''X''" 0 latin_db empty_caches]
  by (simp add: G_leftrec_def lit_def)

text \<open>
  Counterexample to C8 as stated: \<open>X\<close> is not a key of the grammar \<open>S \<rightarrow> S a | b\<close>, and
  \<open>first('X')\<close> returns the empty set.
\<close>

theorem first_unknown_no_error:
  "map_of (productions G_leftrec) (lit ''X'') = None \<and>
   first (Suc 0) latin_db G_leftrec (lit ''X'') empty_caches
     = Some ({}, empty_caches\<lparr>first_cache := (first_cache empty_caches)(lit ''X'' \<mapsto> {})\<rparr>)"
  by (simp add: G_leftrec_def lit_def alternatives_def empty_caches_def)

text \<open>
  C10. For a symbol \<open>X\<close> that is not a key, the list of alternatives defaults to the empty
  list, and \<open>first(X)\<close> returns the empty set and leaves it in the first cache.
\<close>

theorem first_unknown_empty:
  assumes "nonkey_ok g s" and "map_of (productions g) X = None"
  shows "alternatives g X = [] \<and>
         first (Suc n) T g X s = Some ({}, s\<lparr>first_cache := (first_cache s)(X \<mapsto> {})\<rparr>)"
proof (cases "first_cache s X")
  case None
  with assms show ?thesis by (simp add: alternatives_def)
next
  case (Some S)
  with assms have "S = {}" by (auto simp: nonkey_ok_def)
  with Some have "(first_cache s)(X \<mapsto> {}) = first_cache s" by (simp add: map_upd_triv)
  with Some \<open>S = {}\<close> assms show ?thesis by (simp add: alternatives_def)
qed

theorem first_unknown_empty_witness:
  "nonkey_ok G_leftrec empty_caches \<and> map_of (productions G_leftrec) (lit ''X'') = None \<and>
   first (Suc 0) latin_db G_leftrec (lit ''X'') empty_caches
     = Some ({}, empty_caches\<lparr>first_cache := (first_cache empty_caches)(lit ''X'' \<mapsto> {})\<rparr>)"
proof -
  have a: "nonkey_ok G_leftrec empty_caches" by (simp add: nonkey_ok_def empty_caches_def)
  have b: "map_of (productions G_leftrec) (lit ''X'') = None"
    by (simp add: G_leftrec_def lit_def)
  from first_unknown_empty[OF a b, of 0 latin_db] a b show ?thesis by simp
qed

section \<open>Production keys\<close>

lemma split_at_first:
  "c \<notin> set xs \<Longrightarrow> c \<notin> set ys \<Longrightarrow> xs @ c # us = ys @ c # vs \<Longrightarrow> xs = ys \<and> us = vs"
proof (induction xs arbitrary: ys)
  case Nil
  then show ?case by (cases ys) auto
next
  case (Cons x xs)
  then show ?case by (cases ys) auto
qed

lemma join_no_sep_single:
  "join [c] xs = x \<Longrightarrow> xs \<noteq> [] \<Longrightarrow> c \<notin> set x \<Longrightarrow> xs = [x]"
proof (cases xs)
  case Nil
  assume "xs \<noteq> []" with Nil show ?thesis by simp
next
  case (Cons a as)
  assume j: "join [c] xs = x" and c: "c \<notin> set x"
  show ?thesis
  proof (cases as)
    case Nil
    with Cons j show ?thesis by simp
  next
    case (Cons b bs)
    with \<open>xs = a # as\<close> j have "x = a @ c # join [c] (b # bs)" by simp
    with c show ?thesis by simp
  qed
qed

lemma join_Cons_Cons: "join sep (x # y # ys) = x @ sep @ join sep (y # ys)"
  by simp

lemma join_inj:
  "join [c] xs = join [c] ys \<Longrightarrow> xs \<noteq> [] \<Longrightarrow> ys \<noteq> [] \<Longrightarrow>
   \<forall>x\<in>set xs. c \<notin> set x \<Longrightarrow> \<forall>y\<in>set ys. c \<notin> set y \<Longrightarrow> xs = ys"
proof (induction xs arbitrary: ys)
  case Nil
  then show ?case by simp
next
  case (Cons x xs)
  from Cons.prems(3) obtain y ys' where ys: "ys = y # ys'" by (cases ys) auto
  from Cons.prems(4) have cx: "c \<notin> set x" by simp
  from Cons.prems(5) ys have cy: "c \<notin> set y" by simp
  show ?case
  proof (cases xs)
    case Nil
    with Cons.prems(1) have "join [c] ys = x" by simp
    from join_no_sep_single[OF this Cons.prems(3) cx] Nil show ?thesis by simp
  next
    case xs: (Cons x' xs')
    show ?thesis
    proof (cases ys')
      case Nil
      with Cons.prems(1) ys have "join [c] (x # xs) = y" by simp
      from join_no_sep_single[OF this _ cy] ys Nil show ?thesis by simp
    next
      case ys': (Cons y' ys'')
      from Cons.prems(1) have "x @ c # join [c] xs = y @ c # join [c] ys'"
        unfolding ys xs ys' join_Cons_Cons by simp
      from split_at_first[OF cx cy this] have xy: "x = y" and j: "join [c] xs = join [c] ys'"
        by simp_all
      from Cons.prems(4) have a: "\<forall>x\<in>set xs. c \<notin> set x" by simp
      from Cons.prems(5) ys have b: "\<forall>y\<in>set ys'. c \<notin> set y" by simp
      have "xs = ys'"
        by (rule Cons.IH[OF j _ _ a b]) (simp_all add: xs ys')
      with xy ys show ?thesis by simp
    qed
  qed
qed

lemma key_eqD:
  assumes k: "key A rhs = key A' rhs'"
    and "32 \<notin> set A" and "32 \<notin> set A'"
    and "\<forall>x\<in>set rhs. 32 \<notin> set x" and "\<forall>x\<in>set rhs'. 32 \<notin> set x"
  shows "A = A' \<and> (rhs = rhs' \<or> (rhs = [] \<and> rhs' = [EPS]) \<or> (rhs = [EPS] \<and> rhs' = []))"
proof -
  define r where "r = (\<lambda>rhs. if rhs \<noteq> [] then join [32] rhs else EPS)"
  have sp: "lit '' '' = [32]" "lit '' -> '' = [32, 45, 62, 32]" by (simp_all add: lit_def)
  have "key A rhs = A @ 32 # ([45, 62, 32] @ r rhs)"
    "key A' rhs' = A' @ 32 # ([45, 62, 32] @ r rhs')"
    unfolding key_def sp r_def by simp_all
  with k have "A @ 32 # ([45, 62, 32] @ r rhs) = A' @ 32 # ([45, 62, 32] @ r rhs')" by simp
  from split_at_first[OF assms(2,3) this]
  have A: "A = A'" and r: "r rhs = r rhs'" by simp_all
  have e: "32 \<notin> set EPS" by (simp add: EPS_def)
  show ?thesis
  proof (cases "rhs = []")
    case True
    show ?thesis
    proof (cases "rhs' = []")
      case True
      with \<open>rhs = []\<close> A show ?thesis by simp
    next
      case False
      with True r have "join [32] rhs' = EPS" by (simp add: r_def)
      from join_no_sep_single[OF this False e] True A show ?thesis by simp
    qed
  next
    case False
    show ?thesis
    proof (cases "rhs' = []")
      case True
      with False r have "join [32] rhs = EPS" by (simp add: r_def)
      from join_no_sep_single[OF this False e] True A show ?thesis by simp
    next
      case False
      with \<open>rhs \<noteq> []\<close> r have "join [32] rhs = join [32] rhs'" by (simp add: r_def)
      from join_inj[OF this \<open>rhs \<noteq> []\<close> False assms(4,5)] A show ?thesis by simp
    qed
  qed
qed

text \<open>
  C9, as amended. Two distinct productions have distinct keys, provided that no head and
  no symbol contains a space, and that the two are not the same head with the bodies \<open>[]\<close>
  and \<open>['\<epsilon>']\<close>, which the key renders alike.
\<close>

theorem key_distinct:
  assumes "(A, rhs) \<noteq> (A', rhs')"
    and "32 \<notin> set A" and "32 \<notin> set A'"
    and "\<forall>x\<in>set rhs. 32 \<notin> set x" and "\<forall>x\<in>set rhs'. 32 \<notin> set x"
    and "\<not> (A = A' \<and> ((rhs = [] \<and> rhs' = [EPS]) \<or> (rhs = [EPS] \<and> rhs' = [])))"
  shows "key A rhs \<noteq> key A' rhs'"
proof
  assume "key A rhs = key A' rhs'"
  from key_eqD[OF this assms(2-5)] assms(1,6) show False by auto
qed

theorem key_distinct_witness:
  "(lit ''A'', [lit ''x'']) \<noteq> (lit ''A'', [EPS]) \<and> 32 \<notin> set (lit ''A'') \<and>
   32 \<notin> set (lit ''x'') \<and> 32 \<notin> set EPS \<and>
   key (lit ''A'') [lit ''x''] \<noteq> key (lit ''A'') [EPS]"
proof -
  have 1: "(lit ''A'', [lit ''x'']) \<noteq> (lit ''A'', [EPS])" by (simp add: lit_def EPS_def)
  have 2: "32 \<notin> set (lit ''A'')" by (simp add: lit_def)
  have 3: "\<forall>x\<in>set [lit ''x'']. 32 \<notin> set x" by (simp add: lit_def)
  have 4: "\<forall>x\<in>set [EPS]. 32 \<notin> set x" by (simp add: EPS_def)
  have 5: "\<not> (lit ''A'' = lit ''A'' \<and>
            (([lit ''x''] = [] \<and> [EPS] = [EPS]) \<or> ([lit ''x''] = [EPS] \<and> [EPS] = [])))"
    by simp
  from key_distinct[OF 1 2 2 3 4 5] 1 2 3 4 show ?thesis by simp
qed

text \<open>
  Counterexample to C9 as stated: the productions \<open>A \<rightarrow> []\<close> and \<open>A \<rightarrow> ['\<epsilon>']\<close> are
  distinct and have the same key.
\<close>

theorem key_collision:
  "(lit ''A'', []) \<noteq> (lit ''A'', [EPS]) \<and> key (lit ''A'') [] = key (lit ''A'') [EPS]"
  by (simp add: key_def)

section \<open>The scan of a sequence\<close>

lemma scan_step_None [simp]: "scan_step n T g None sy = None"
  by (simp add: scan_step_def)

lemma scan_step_stopped [simp]:
  "scan_step n T g (Some (res, True, s)) sy = Some (res, True, s)"
  by (simp add: scan_step_def)

lemma scan_step_go:
  "scan_step n T g (Some (res, False, s)) sy =
     (if \<not> is_nonterminal T sy then Some (insert sy res, True, s)
      else (case first n T g sy s of
              None \<Rightarrow> None
            | Some (fs, s1) \<Rightarrow> Some (res \<union> (fs - {EPS}), EPS \<notin> fs, s1)))"
  by (simp add: scan_step_def)

lemma foldl_scan_None: "foldl (scan_step n T g) None xs = None"
  by (induction xs) simp_all

lemma foldl_scan_stopped:
  "foldl (scan_step n T g) (Some (res, True, s)) xs = Some (res, True, s)"
  by (induction xs) simp_all

lemma rhs_loop_scan:
  "rhs_loop n T g xs res s =
     (case foldl (scan_step n T g) (Some (res, False, s)) xs of
        None \<Rightarrow> None
      | Some (r, stopped, s') \<Rightarrow> Some (if stopped then r else insert EPS r, s'))"
proof (induction xs arbitrary: res s)
  case Nil
  then show ?case by simp
next
  case (Cons x xs)
  show ?case
  proof (cases "is_nonterminal T x")
    case False
    then show ?thesis by (simp add: scan_step_go foldl_scan_stopped)
  next
    case True
    show ?thesis
    proof (cases "first n T g x s")
      case None
      with True show ?thesis by (simp add: scan_step_go foldl_scan_None)
    next
      case (Some p)
      obtain fs s1 where p: "p = (fs, s1)" by (cases p)
      show ?thesis
      proof (cases "EPS \<in> fs")
        case e: True
        with True Some p show ?thesis by (simp add: scan_step_go Cons.IH)
      next
        case e: False
        with True Some p show ?thesis by (simp add: scan_step_go foldl_scan_stopped)
      qed
    qed
  qed
qed

text \<open>
  What \<open>first_of_rhs\<close> computes: the cache is looked up first; a sequence that has no
  entry is scanned as the specification says, and the result is stored.
\<close>

lemma first_of_rhs_scan:
  "first_of_rhs (Suc n) T g \<alpha> s =
     (case first_rhs_cache s \<alpha> of
        Some r \<Rightarrow> Some (r, s)
      | None \<Rightarrow>
          (case first_of_sequence_spec n T g \<alpha> s of
             None \<Rightarrow> None
           | Some (r, s') \<Rightarrow>
               Some (r, s'\<lparr>first_rhs_cache := (first_rhs_cache s')(\<alpha> \<mapsto> r)\<rparr>)))"
proof (cases "\<alpha> = []")
  case True
  then show ?thesis by (simp add: first_of_sequence_spec_def split: option.splits)
next
  case False
  then show ?thesis
    by (simp add: first_of_sequence_spec_def rhs_loop_scan split: option.splits prod.splits)
qed


text \<open>
  C2. The claim is that \<open>first_of_rhs\<close> returns the result of the left-to-right scan for
  every sequence. The code breaks it: after \<open>first('S')\<close> on \<open>S \<rightarrow> S a | b\<close> the sequence
  cache holds the empty set for \<open>S a\<close>, computed while the entry of \<open>S\<close> in the first cache
  was still the empty placeholder, and \<open>first_of_rhs\<close> returns it, while \<open>first('S')\<close> is
  \<open>{b}\<close> and the scan yields \<open>{b}\<close>.
\<close>

theorem first_of_rhs_stale:
  "first (Suc (Suc (Suc 0))) latin_db G_leftrec (lit ''S'') empty_caches
     = Some ({lit ''b''}, leftrec_caches) \<and>
   first_of_rhs (Suc (Suc (Suc 0))) latin_db G_leftrec [lit ''S'', lit ''a''] leftrec_caches
     = Some ({}, leftrec_caches) \<and>
   map_option fst
     (first_of_sequence_spec (Suc (Suc 0)) latin_db G_leftrec [lit ''S'', lit ''a''] leftrec_caches)
     = Some {lit ''b''}"
proof -
  have S: "is_nonterminal latin_db [83]" "\<not> is_nonterminal latin_db [97]"
    "\<not> is_nonterminal latin_db [98]"
    using latin_db_S by (simp_all add: lit_def)
  have 1: "first (Suc (Suc (Suc 0))) latin_db G_leftrec (lit ''S'') empty_caches
             = Some ({lit ''b''}, leftrec_caches)"
    using S by (simp add: lit_def empty_caches_def alternatives_def G_leftrec_def Let_def EPS_def
          leftrec_caches_def)
  have 2: "first_of_rhs (Suc (Suc (Suc 0))) latin_db G_leftrec [lit ''S'', lit ''a'']
             leftrec_caches = Some ({}, leftrec_caches)"
    by (simp add: lit_def empty_caches_def alternatives_def G_leftrec_def Let_def EPS_def
          leftrec_caches_def)
  have 3: "map_option fst
     (first_of_sequence_spec (Suc (Suc 0)) latin_db G_leftrec [lit ''S'', lit ''a''] leftrec_caches)
     = Some {lit ''b''}"
    using S by (simp add: first_of_sequence_spec_def scan_step_go lit_def empty_caches_def
          alternatives_def G_leftrec_def Let_def EPS_def leftrec_caches_def)
  from 1 2 3 show ?thesis by simp
qed

section \<open>FOLLOW sets only grow\<close>

lemma fo_le_refl: "fo_le m m"
  by (simp add: fo_le_def)

lemma fo_le_trans: "fo_le m1 m2 \<Longrightarrow> fo_le m2 m3 \<Longrightarrow> fo_le m1 m3"
  unfolding fo_le_def by (meson subset_trans)

lemma fo_leD: "fo_le m m' \<Longrightarrow> m X = Some S \<Longrightarrow> \<exists>S'. m' X = Some S' \<and> S \<subseteq> S'"
  by (simp add: fo_le_def)

lemma fo_le_upd: "m B = Some S \<Longrightarrow> S \<subseteq> S' \<Longrightarrow> fo_le m (m(B \<mapsto> S'))"
  by (simp add: fo_le_def)

lemma fo_le_setdefault_all: "fo_le m (setdefault_all ks m)"
proof (induction ks arbitrary: m)
  case Nil
  then show ?case by (simp add: fo_le_refl)
next
  case (Cons k ks)
  have "fo_le m (case m k of None \<Rightarrow> m(k \<mapsto> {}) | Some v \<Rightarrow> m)"
    by (auto simp: fo_le_def split: option.splits)
  with Cons.IH show ?case by (auto intro: fo_le_trans)
qed

lemma propagate_cases:
  assumes "propagate n T g A B rest c s = Some (Inr (c', s'))"
  obtains fr s1 bef where
    "first_of_rhs n T g rest s = Some (fr, s1)"
    "follow_cache s B = Some bef"
    "EPS \<in> fr \<or> length rest = 0 \<Longrightarrow>
       \<exists>fa. follow_cache s A = Some fa \<and>
            (let fa' = (if A = B then bef \<union> (fr - {EPS}) else fa) in
             s' = s1\<lparr>follow_cache := (follow_cache s)(B \<mapsto> bef \<union> (fr - {EPS}) \<union> fa')\<rparr> \<and>
             c' = (c \<or> bef \<union> (fr - {EPS}) \<union> fa' \<noteq> bef))"
    "\<not> (EPS \<in> fr \<or> length rest = 0) \<Longrightarrow>
       s' = s1\<lparr>follow_cache := (follow_cache s)(B \<mapsto> bef \<union> (fr - {EPS}))\<rparr> \<and>
       c' = (c \<or> bef \<union> (fr - {EPS}) \<noteq> bef)"
proof -
  from assms obtain fr s1 where f: "first_of_rhs n T g rest s = Some (fr, s1)"
    by (auto simp: propagate_def split: option.splits)
  from first_cache_ext(3)[OF f] have fo: "follow_cache s1 = follow_cache s"
    by (simp add: cache_ext_def)
  from assms f fo obtain bef where b: "follow_cache s B = Some bef"
    by (auto simp: propagate_def split: option.splits)
  show ?thesis
  proof (rule that[OF f b])
    assume "EPS \<in> fr \<or> length rest = 0"
    with assms f fo b show "\<exists>fa. follow_cache s A = Some fa \<and>
            (let fa' = (if A = B then bef \<union> (fr - {EPS}) else fa) in
             s' = s1\<lparr>follow_cache := (follow_cache s)(B \<mapsto> bef \<union> (fr - {EPS}) \<union> fa')\<rparr> \<and>
             c' = (c \<or> bef \<union> (fr - {EPS}) \<union> fa' \<noteq> bef))"
      by (auto simp: propagate_def Let_def split: option.splits if_splits)
  next
    assume "\<not> (EPS \<in> fr \<or> length rest = 0)"
    with assms f fo b show "s' = s1\<lparr>follow_cache := (follow_cache s)(B \<mapsto> bef \<union> (fr - {EPS}))\<rparr> \<and>
       c' = (c \<or> bef \<union> (fr - {EPS}) \<noteq> bef)"
      by (auto simp: propagate_def Let_def split: option.splits if_splits)
  qed
qed

lemma propagate_fo_le:
  assumes "propagate n T g A B rest c s = Some (Inr (c', s'))"
  shows "fo_le (follow_cache s) (follow_cache s')"
  using assms
  by (elim propagate_cases, cases "EPS \<in> fst (the (first_of_rhs n T g rest s)) \<or> length rest = 0")
     (auto simp: Let_def intro!: fo_le_upd)

lemma follow_symbols_fo_le:
  "follow_symbols n T g A syms c s = Some (Inr (c', s')) \<Longrightarrow>
   fo_le (follow_cache s) (follow_cache s')"
proof (induction syms arbitrary: c s)
  case Nil
  then show ?case by (simp add: fo_le_refl)
next
  case (Cons B rest)
  show ?case
  proof (cases "is_nonterminal T B")
    case False
    with Cons show ?thesis by simp
  next
    case True
    with Cons.prems obtain c1 s1 where
      p: "propagate n T g A B rest c s = Some (Inr (c1, s1))"
      and r: "follow_symbols n T g A rest c1 s1 = Some (Inr (c', s'))"
      by (auto split: option.splits sum.splits)
    from propagate_fo_le[OF p] Cons.IH[OF r] show ?thesis by (rule fo_le_trans)
  qed
qed

lemma follow_rhss_fo_le:
  "follow_rhss n T g A rhss c s = Some (Inr (c', s')) \<Longrightarrow>
   fo_le (follow_cache s) (follow_cache s')"
proof (induction rhss arbitrary: c s)
  case Nil
  then show ?case by (simp add: fo_le_refl)
next
  case (Cons rhs rhss)
  from Cons.prems obtain c1 s1 where
    p: "follow_symbols n T g A rhs c s = Some (Inr (c1, s1))"
    and r: "follow_rhss n T g A rhss c1 s1 = Some (Inr (c', s'))"
    by (auto split: option.splits sum.splits)
  from follow_symbols_fo_le[OF p] Cons.IH[OF r] show ?case by (rule fo_le_trans)
qed

lemma follow_pass_fo_le:
  "follow_pass n T g ps c s = Some (Inr (c', s')) \<Longrightarrow>
   fo_le (follow_cache s) (follow_cache s')"
proof (induction ps arbitrary: c s)
  case Nil
  then show ?case by (simp add: fo_le_refl)
next
  case (Cons p ps)
  obtain A rhss where pp: "p = (A, rhss)" by (cases p)
  from Cons.prems pp obtain c1 s1 where
    p: "follow_rhss n T g A rhss c s = Some (Inr (c1, s1))"
    and r: "follow_pass n T g ps c1 s1 = Some (Inr (c', s'))"
    by (auto split: option.splits sum.splits)
  from follow_rhss_fo_le[OF p] Cons.IH[OF r] show ?case by (rule fo_le_trans)
qed

lemma follow_while_fo_le:
  "follow_while k n T g s = Some (Inr s') \<Longrightarrow> fo_le (follow_cache s) (follow_cache s')"
proof (induction k arbitrary: s)
  case 0
  then show ?case by simp
next
  case (Suc k)
  from Suc.prems obtain c1 s1 where
    p: "follow_pass n T g (productions g) False s = Some (Inr (c1, s1))"
    and r: "if c1 then follow_while k n T g s1 = Some (Inr s') else s' = s1"
    by (auto split: option.splits sum.splits if_splits)
  show ?case
  proof (cases c1)
    case True
    with r have "follow_while k n T g s1 = Some (Inr s')" by simp
    from follow_pass_fo_le[OF p] Suc.IH[OF this] show ?thesis by (rule fo_le_trans)
  next
    case False
    with r follow_pass_fo_le[OF p] show ?thesis by simp
  qed
qed

lemma follow_all_cases:
  assumes "follow_all n T g s = Some (Inr (fo, s'))"
  obtains fs where
    "setdefault_all (map fst (productions g)) (follow_cache s) (start g) = Some fs"
    "follow_while n n T g
       (s\<lparr>follow_cache := (setdefault_all (map fst (productions g)) (follow_cache s))
                             (start g \<mapsto> insert DOLLAR fs)\<rparr>) = Some (Inr s')"
    "fo = follow_cache s'"
  using assms by (auto simp: follow_all_def Let_def split: option.splits sum.splits)

lemma latin_db_syms:
  "is_nonterminal latin_db [83]" "is_nonterminal latin_db [65]"
  "\<not> is_nonterminal latin_db [97]" "\<not> is_nonterminal latin_db [98]"
  "\<not> is_nonterminal latin_db [99]" "\<not> is_nonterminal latin_db [949]"
  by (simp_all add: is_nonterminal_def str_isalpha_def str_isupper_def latin_db_def)

lemma follow_all_G_ab:
  "follow_all (Suc (Suc (Suc (Suc 0)))) latin_db G_ab empty_caches
    = Some (Inr (follow_cache G_ab_step, G_ab_step))"
  using latin_db_syms
  by (simp add: follow_all_def G_ab_def lit_def EPS_def DOLLAR_def empty_caches_def
        propagate_def Let_def alternatives_def G_ab_step_def)

lemma propagate_G_ab:
  "propagate (Suc (Suc 0)) latin_db G_ab (lit ''S'') (lit ''A'') [lit ''b''] False G_ab_seeded
    = Some (Inr (True, G_ab_step))"
  using latin_db_syms
  by (simp add: G_ab_def lit_def EPS_def DOLLAR_def propagate_def Let_def alternatives_def G_ab_seeded_def G_ab_step_def)

text \<open>
  C5. Whenever \<open>follow_all\<close> returns a mapping, the entry of the start symbol contains
  \<open>$\<close>: it is put there before the loop, and the loop removes nothing.
\<close>

theorem follow_all_start_dollar:
  assumes "follow_all n T g s = Some (Inr (fo, s'))"
  shows "\<exists>S. fo (start g) = Some S \<and> DOLLAR \<in> S"
proof -
  from assms obtain fs where
    w: "follow_while n n T g
       (s\<lparr>follow_cache := (setdefault_all (map fst (productions g)) (follow_cache s))
                             (start g \<mapsto> insert DOLLAR fs)\<rparr>) = Some (Inr s')"
    and fo: "fo = follow_cache s'"
    by (rule follow_all_cases)
  from follow_while_fo_le[OF w]
  have "fo_le ((setdefault_all (map fst (productions g)) (follow_cache s))
                 (start g \<mapsto> insert DOLLAR fs)) (follow_cache s')"
    by simp
  from fo_leD[OF this, of "start g" "insert DOLLAR fs"] fo show ?thesis
    by auto
qed

theorem follow_all_start_dollar_witness:
  "follow_all (Suc (Suc (Suc (Suc 0)))) latin_db G_ab empty_caches
    = Some (Inr (follow_cache G_ab_step, G_ab_step)) \<and>
   (\<exists>S. follow_cache G_ab_step (start G_ab) = Some S \<and> DOLLAR \<in> S)"
  using follow_all_start_dollar[OF follow_all_G_ab] follow_all_G_ab by simp

text \<open>
  C6. Each propagation step leaves every FOLLOW set a superset of what it was, and so do
  each pass, the whole loop and \<open>follow_all\<close> itself.
\<close>

theorem follow_monotone:
  "(propagate n T g A B rest c s = Some (Inr (c', s')) \<longrightarrow>
      fo_le (follow_cache s) (follow_cache s')) \<and>
   (follow_pass n T g (productions g) c s = Some (Inr (c1, s1)) \<longrightarrow>
      fo_le (follow_cache s) (follow_cache s1)) \<and>
   (follow_while k n T g s = Some (Inr s2) \<longrightarrow>
      fo_le (follow_cache s) (follow_cache s2)) \<and>
   (follow_all n T g s = Some (Inr (fo, s3)) \<longrightarrow> fo_le (follow_cache s) fo)"
proof -
  have "fo_le (follow_cache s) fo" if a: "follow_all n T g s = Some (Inr (fo, s3))"
  proof -
    from a obtain fs where
      d: "setdefault_all (map fst (productions g)) (follow_cache s) (start g) = Some fs"
      and w: "follow_while n n T g
       (s\<lparr>follow_cache := (setdefault_all (map fst (productions g)) (follow_cache s))
                             (start g \<mapsto> insert DOLLAR fs)\<rparr>) = Some (Inr s3)"
      and fo: "fo = follow_cache s3"
      by (rule follow_all_cases)
    have "fo_le (follow_cache s) (setdefault_all (map fst (productions g)) (follow_cache s))"
      by (rule fo_le_setdefault_all)
    moreover from d have "fo_le (setdefault_all (map fst (productions g)) (follow_cache s))
           ((setdefault_all (map fst (productions g)) (follow_cache s))
                             (start g \<mapsto> insert DOLLAR fs))"
      by (rule fo_le_upd) auto
    moreover from follow_while_fo_le[OF w] have "fo_le ((setdefault_all (map fst (productions g)) (follow_cache s))
                             (start g \<mapsto> insert DOLLAR fs)) fo"
      by (simp add: fo)
    ultimately show ?thesis by (blast intro: fo_le_trans)
  qed
  then show ?thesis
    by (auto dest: propagate_fo_le follow_pass_fo_le follow_while_fo_le)
qed

theorem follow_monotone_witness:
  "propagate (Suc (Suc 0)) latin_db G_ab (lit ''S'') (lit ''A'') [lit ''b''] False G_ab_seeded
    = Some (Inr (True, G_ab_step)) \<and>
   fo_le (follow_cache G_ab_seeded) (follow_cache G_ab_step)"
  using follow_monotone[of "Suc (Suc 0)" latin_db G_ab "lit ''S''" "lit ''A''" "[lit ''b'']" False
          G_ab_seeded True G_ab_step] propagate_G_ab
  by simp

section \<open>Prediction sets\<close>

lemma all_productions_Nil [simp]: "all_productions [] = {}"
  by (simp add: all_productions_def)

lemma all_productions_Cons:
  "all_productions ((A, alts) # ps) = (Pair A ` set alts) \<union> all_productions ps"
  by (auto simp: all_productions_def)

lemma predict_law_ext:
  "cache_ext s s' \<Longrightarrow> predict_law s A rhs P \<Longrightarrow> predict_law s' A rhs P"
  unfolding predict_law_def cache_ext_def by auto

lemma justified_ext:
  "cache_ext s s' \<Longrightarrow> justified Ps s preds \<Longrightarrow> justified Ps s' preds"
  unfolding justified_def by (blast intro: predict_law_ext)

lemma justified_mono: "Ps \<subseteq> Qs \<Longrightarrow> justified Ps s preds \<Longrightarrow> justified Qs s preds"
  unfolding justified_def by blast

lemma justified_upd:
  "justified Ps s preds \<Longrightarrow> predict_law s A rhs v \<Longrightarrow>
   justified (insert (A, rhs) Ps) s (preds(key A rhs \<mapsto> v))"
  unfolding justified_def
  by (metis fun_upd_apply insertCI option.inject)

lemma first_of_rhs_cached:
  "first_of_rhs n T g rhs s = Some (F, s') \<Longrightarrow> first_rhs_cache s' rhs = Some F"
  by (cases n) (auto split: option.splits if_splits)

lemma pred_rhss_justified:
  "pred_rhss n T g A rhss preds s = Some (Inr (preds', s')) \<Longrightarrow> justified Ps s preds \<Longrightarrow>
   justified (Ps \<union> Pair A ` set rhss) s' preds' \<and> cache_ext s s' \<and>
   dom preds' = dom preds \<union> key A ` set rhss"
proof (induction rhss arbitrary: preds s Ps)
  case Nil
  then show ?case by (simp add: cache_ext_refl)
next
  case (Cons rhs rhss)
  from Cons.prems(1) obtain F s1 where f: "first_of_rhs n T g rhs s = Some (F, s1)"
    by (auto split: option.splits)
  from first_cache_ext(3)[OF f] have e: "cache_ext s s1" .
  from first_of_rhs_cached[OF f] have c: "first_rhs_cache s1 rhs = Some F" .
  define v where "v = (F - {EPS}) \<union> (if EPS \<in> F then the (follow_cache s1 A) else {})"
  from Cons.prems(1) f have law: "predict_law s1 A rhs v"
    and r: "pred_rhss n T g A rhss (preds(key A rhs \<mapsto> v)) s1 = Some (Inr (preds', s'))"
    using c by (auto simp: predict_law_def Let_def v_def split: option.splits if_splits)
  from justified_ext[OF e Cons.prems(2)] law
  have "justified (insert (A, rhs) Ps) s1 (preds(key A rhs \<mapsto> v))"
    by (rule justified_upd)
  from Cons.IH[OF r this] e show ?case
    by (auto intro: cache_ext_trans)
qed

lemma pred_prods_justified:
  "pred_prods n T g ps preds s = Some (Inr (preds', s')) \<Longrightarrow> justified Ps s preds \<Longrightarrow>
   justified (Ps \<union> all_productions ps) s' preds' \<and> cache_ext s s' \<and>
   dom preds' = dom preds \<union> (\<lambda>(A, rhs). key A rhs) ` all_productions ps"
proof (induction ps arbitrary: preds s Ps)
  case Nil
  then show ?case by (simp add: cache_ext_refl)
next
  case (Cons p ps)
  obtain A alts where p: "p = (A, alts)" by (cases p)
  from Cons.prems(1) p obtain preds1 s1 where
    a: "pred_rhss n T g A alts preds s = Some (Inr (preds1, s1))"
    and r: "pred_prods n T g ps preds1 s1 = Some (Inr (preds', s'))"
    by (auto split: option.splits sum.splits)
  from pred_rhss_justified[OF a Cons.prems(2)]
  have j: "justified (Ps \<union> Pair A ` set alts) s1 preds1" and e: "cache_ext s s1"
    and d: "dom preds1 = dom preds \<union> key A ` set alts" by simp_all
  from Cons.IH[OF r j] have j': "justified (Ps \<union> Pair A ` set alts \<union> all_productions ps) s' preds'"
    and e': "cache_ext s1 s'"
    and d': "dom preds' = dom preds1 \<union> (\<lambda>(A, rhs). key A rhs) ` all_productions ps"
    by simp_all
  have "Ps \<union> Pair A ` set alts \<union> all_productions ps = Ps \<union> all_productions (p # ps)"
    by (auto simp: p all_productions_Cons)
  with j' have "justified (Ps \<union> all_productions (p # ps)) s' preds'" by simp
  moreover from e e' have "cache_ext s s'" by (rule cache_ext_trans)
  moreover from d d' have "dom preds' = dom preds \<union> (\<lambda>(A, rhs). key A rhs) ` all_productions (p # ps)"
    by (auto simp: p all_productions_Cons)
  ultimately show ?case by simp
qed

lemma latin_db_sp: "\<not> is_nonterminal latin_db [97, 32, 98]"
  by (simp add: is_nonterminal_def str_isalpha_def str_isupper_def latin_db_def)

lemma prediction_sets_G_sp:
  "prediction_sets (Suc 0) latin_db G_sp empty_caches = Some (Inr (G_sp_preds, G_sp_caches))"
  using latin_db_syms latin_db_sp
  by (simp add: prediction_sets_def follow_all_def G_sp_def lit_def EPS_def DOLLAR_def
        empty_caches_def propagate_def Let_def alternatives_def G_sp_caches_def G_sp_preds_def
        key_def)

lemma prediction_sets_G_ab:
  "prediction_sets (Suc (Suc (Suc (Suc 0)))) latin_db G_ab empty_caches
     = Some (Inr (G_ab_preds, G_ab_final))"
  using latin_db_syms
  by (simp add: prediction_sets_def follow_all_def G_ab_def lit_def EPS_def DOLLAR_def
        empty_caches_def propagate_def Let_def alternatives_def G_ab_final_def G_ab_preds_def
        key_def)

lemma key_unique_G_ab: "key_unique G_ab (lit ''S'') [lit ''A'', lit ''b'']"
  by (auto simp: key_unique_def all_productions_def G_ab_def key_def lit_def EPS_def)

text \<open>
  What \<open>prediction_sets\<close> stores: every key of a production has an entry, and the entry
  is built from the set that \<open>first_of_rhs\<close> returned for a production with that key, which
  is the entry of the sequence cache, and from the follow map that \<open>follow_all\<close> returned.
  Whether the cached set is \<open>FIRST\<close> of the body is another matter, settled for the
  script's first grammar at the end of this theory.
\<close>

lemma prediction_sets_law:
  assumes "prediction_sets n T g s = Some (Inr (preds, s'))"
    and "(A, rhs) \<in> all_productions (productions g)"
  shows "\<exists>fo s1 P A' rhs'.
           follow_all n T g s = Some (Inr (fo, s1)) \<and> follow_cache s' = fo \<and>
           preds (key A rhs) = Some P \<and>
           (A', rhs') \<in> all_productions (productions g) \<and> key A' rhs' = key A rhs \<and>
           predict_law s' A' rhs' P \<and>
           (key_unique g A rhs \<longrightarrow> A' = A \<and> rhs' = rhs)"
proof -
  from assms(1) obtain fo s1 where
    fa: "follow_all n T g s = Some (Inr (fo, s1))"
    and pp: "pred_prods n T g (productions g) Map.empty s1 = Some (Inr (preds, s'))"
    by (auto simp: prediction_sets_def split: option.splits sum.splits)
  from fa have fo: "fo = follow_cache s1" by (rule follow_all_cases)
  have "justified {} s1 Map.empty" by (simp add: justified_def)
  from pred_prods_justified[OF pp this]
  have j: "justified (all_productions (productions g)) s' preds" and e: "cache_ext s1 s'"
    and d: "dom preds = (\<lambda>(A, rhs). key A rhs) ` all_productions (productions g)"
    by simp_all
  from d assms(2) have "key A rhs \<in> dom preds" by force
  then obtain P where P: "preds (key A rhs) = Some P" by auto
  with j obtain A' rhs' where
    m: "(A', rhs') \<in> all_productions (productions g)" "key A' rhs' = key A rhs"
      "predict_law s' A' rhs' P"
    unfolding justified_def by blast
  from m(1,2) have "key_unique g A rhs \<longrightarrow> A' = A \<and> rhs' = rhs"
    by (auto simp: key_unique_def)
  with fa fo e P m show ?thesis
    by (auto simp: cache_ext_def)
qed

lemma prediction_sets_law_G_ab:
  "prediction_sets (Suc (Suc (Suc (Suc 0)))) latin_db G_ab empty_caches
     = Some (Inr (G_ab_preds, G_ab_final)) \<and>
   (lit ''S'', [lit ''A'', lit ''b'']) \<in> all_productions (productions G_ab) \<and>
   key_unique G_ab (lit ''S'') [lit ''A'', lit ''b''] \<and>
   (\<exists>P. G_ab_preds (key (lit ''S'') [lit ''A'', lit ''b'']) = Some P \<and>
        predict_law G_ab_final (lit ''S'') [lit ''A'', lit ''b''] P)"
proof -
  have m: "(lit ''S'', [lit ''A'', lit ''b'']) \<in> all_productions (productions G_ab)"
    by (auto simp: all_productions_def G_ab_def)
  from prediction_sets_law[OF prediction_sets_G_ab m] key_unique_G_ab
  have "\<exists>P. G_ab_preds (key (lit ''S'') [lit ''A'', lit ''b'']) = Some P \<and>
        predict_law G_ab_final (lit ''S'') [lit ''A'', lit ''b''] P"
    by auto
  with prediction_sets_G_ab m key_unique_G_ab show ?thesis by simp
qed

text \<open>
  Productions with the same key share one entry: in \<open>A \<rightarrow> 'a b' | a b\<close> both have the key
  \<open>A -> a b\<close>, and the entry is the prediction set \<open>{a}\<close> of the second.
\<close>

lemma prediction_sets_collision:
  "prediction_sets (Suc 0) latin_db G_sp empty_caches = Some (Inr (G_sp_preds, G_sp_caches)) \<and>
   (lit ''A'', [lit ''a b'']) \<in> all_productions (productions G_sp) \<and>
   first_of_rhs (Suc 0) latin_db G_sp [lit ''a b''] G_sp_caches
     = Some ({lit ''a b''}, G_sp_caches) \<and>
   EPS \<notin> {lit ''a b''} \<and>
   G_sp_preds (key (lit ''A'') [lit ''a b'']) = Some {lit ''a''} \<and>
   {lit ''a''} \<noteq> {lit ''a b''} - {EPS}"
proof -
  have "(lit ''A'', [lit ''a b'']) \<in> all_productions (productions G_sp)"
    by (auto simp: all_productions_def G_sp_def)
  moreover have "first_of_rhs (Suc 0) latin_db G_sp [lit ''a b''] G_sp_caches
     = Some ({lit ''a b''}, G_sp_caches)"
    by (simp add: G_sp_caches_def)
  moreover have "G_sp_preds (key (lit ''A'') [lit ''a b'']) = Some {lit ''a''}"
    by (simp add: G_sp_preds_def key_def lit_def)
  moreover have "EPS \<notin> {lit ''a b''}" "{lit ''a''} \<noteq> {lit ''a b''} - {EPS}"
    by (simp_all add: lit_def EPS_def)
  ultimately show ?thesis using prediction_sets_G_sp by simp
qed

section \<open>Properties of the caches that every method keeps\<close>

lemma nonkey_ok_empty: "nonkey_ok g empty_caches"
  by (simp add: nonkey_ok_def empty_caches_def)

lemma nonkey_ok_follow_upd [simp]: "nonkey_ok g (s\<lparr>follow_cache := m\<rparr>) = nonkey_ok g s"
  by (simp add: nonkey_ok_def)

lemma nonkey_ok_rhs_upd [simp]: "nonkey_ok g (s\<lparr>first_rhs_cache := m\<rparr>) = nonkey_ok g s"
  by (simp add: nonkey_ok_def)

lemma nonkey_ok_first_upd:
  "nonkey_ok g s \<Longrightarrow> (map_of (productions g) X = None \<longrightarrow> r = {}) \<Longrightarrow>
   nonkey_ok g (s\<lparr>first_cache := (first_cache s)(X \<mapsto> r)\<rparr>)"
  by (simp add: nonkey_ok_def)

lemma alternatives_nonkey: "map_of (productions g) X = None \<Longrightarrow> alternatives g X = []"
  by (simp add: alternatives_def)

lemma first_nonkey_ok:
  "first n T g X s = Some (r, s') \<Longrightarrow> nonkey_ok g s \<Longrightarrow>
     nonkey_ok g s' \<and> (map_of (productions g) X = None \<longrightarrow> r = {})"
  "first_loop n T g X alts res s = Some (r, s') \<Longrightarrow> nonkey_ok g s \<Longrightarrow>
     (map_of (productions g) X = None \<longrightarrow> alts = [] \<and> res = {}) \<Longrightarrow>
     nonkey_ok g s' \<and> (map_of (productions g) X = None \<longrightarrow> r = {})"
  "first_of_rhs n T g rhs s = Some (r, s') \<Longrightarrow> nonkey_ok g s \<Longrightarrow> nonkey_ok g s'"
  "rhs_loop n T g rhs res s = Some (r, s') \<Longrightarrow> nonkey_ok g s \<Longrightarrow> nonkey_ok g s'"
proof (induction n T g X s and n T g X alts res s and n T g rhs s and n T g rhs res s
       arbitrary: r s' and r s' and r s' and r s'
       rule: first_first_loop_first_of_rhs_rhs_loop.induct)
  case (1 T g X s)
  then show ?case by simp
next
  case (2 n T g X s)
  show ?case
  proof (cases "first_cache s X")
    case None
    with "2.prems" obtain s1 where
      l: "first_loop n T g X (alternatives g X) {}
            (s\<lparr>first_cache := (first_cache s)(X \<mapsto> {})\<rparr>) = Some (r, s1)"
      and s': "s' = s1\<lparr>first_cache := (first_cache s1)(X \<mapsto> r)\<rparr>"
      by (auto split: option.splits)
    from "2.prems"(2) have "nonkey_ok g (s\<lparr>first_cache := (first_cache s)(X \<mapsto> {})\<rparr>)"
      by (simp add: nonkey_ok_first_upd)
    from "2.IH"[OF None l this] have "nonkey_ok g s1 \<and> (map_of (productions g) X = None \<longrightarrow> r = {})"
      by (simp add: alternatives_nonkey)
    then show ?thesis unfolding s' by (simp add: nonkey_ok_first_upd)
  next
    case (Some a)
    with "2.prems" show ?thesis by (auto simp: nonkey_ok_def)
  qed
next
  case (3 n T g X result s)
  then show ?case by simp
next
  case (4 n T g X alpha alphas result s)
  from "4.prems"(3) have key: "map_of (productions g) X \<noteq> None" by auto
  from "4.prems"(1) obtain fa s1 where
    a: "first_of_rhs n T g alpha s = Some (fa, s1)"
    and l: "first_loop n T g X alphas
              (result \<union> (fa - {EPS}) \<union> (if EPS \<in> fa then {EPS} else {}))
              (s1\<lparr>first_cache := (first_cache s1)
                    (X \<mapsto> result \<union> (fa - {EPS}) \<union> (if EPS \<in> fa then {EPS} else {}))\<rparr>)
            = Some (r, s')"
    by (auto split: option.splits simp: Let_def)
  from "4.IH"(1)[OF a "4.prems"(2)] have "nonkey_ok g s1" .
  then have "nonkey_ok g (s1\<lparr>first_cache := (first_cache s1)
                    (X \<mapsto> result \<union> (fa - {EPS}) \<union> (if EPS \<in> fa then {EPS} else {}))\<rparr>)"
    by (rule nonkey_ok_first_upd) (use key in blast)
  from "4.IH"(2)[OF a refl refl l this] key show ?case by auto
next
  case (5 T g rhs s)
  then show ?case by simp
next
  case (6 n T g rhs s)
  show ?case
  proof (cases "first_rhs_cache s rhs")
    case None
    show ?thesis
    proof (cases "length rhs = 0")
      case True
      with None "6.prems" show ?thesis by auto
    next
      case False
      with None "6.prems" obtain s1 where
        l: "rhs_loop n T g rhs {} s = Some (r, s1)"
        and s': "s' = s1\<lparr>first_rhs_cache := (first_rhs_cache s1)(rhs \<mapsto> r)\<rparr>"
        by (auto split: option.splits)
      from "6.IH"[OF None False l "6.prems"(2)] show ?thesis unfolding s' by simp
    qed
  next
    case (Some a)
    with "6.prems" show ?thesis by simp
  qed
next
  case (7 n T g result s)
  then show ?case by simp
next
  case (8 n T g sy rest result s)
  show ?case
  proof (cases "is_nonterminal T sy")
    case False
    with "8.prems" show ?thesis by simp
  next
    case True
    with "8.prems" obtain fs s1 where
      f: "first n T g sy s = Some (fs, s1)"
      and rest: "if EPS \<in> fs
                 then rhs_loop n T g rest (result \<union> (fs - {EPS})) s1 = Some (r, s')
                 else s' = s1"
      by (auto split: option.splits if_splits simp: Let_def)
    from True have nn: "\<not> \<not> is_nonterminal T sy" by simp
    from "8.IH"(1)[OF nn f "8.prems"(2)] have e1: "nonkey_ok g s1" by simp
    show ?thesis
    proof (cases "EPS \<in> fs")
      case True
      with rest have "rhs_loop n T g rest (result \<union> (fs - {EPS})) s1 = Some (r, s')" by simp
      from "8.IH"(2)[OF nn f refl refl True this e1] show ?thesis .
    next
      case False
      with rest e1 show ?thesis by simp
    qed
  qed
qed

text \<open>
  A property of the caches that \<open>first_of_rhs\<close> keeps and that does not read the follow
  cache is kept by the loops of \<open>follow_all\<close> and \<open>prediction_sets\<close>.
\<close>

lemma propagate_keeps:
  assumes f: "\<forall>rhs s r s'. first_of_rhs n T g rhs s = Some (r, s') \<longrightarrow> I s \<longrightarrow> I s'"
    and u: "\<forall>s m. I (s\<lparr>follow_cache := m\<rparr>) = I s"
    and p: "propagate n T g A B rest c s = Some (Inr (c', s'))" and i: "I s"
  shows "I s'"
  using p by (elim propagate_cases, cases "EPS \<in> fst (the (first_of_rhs n T g rest s)) \<or> length rest = 0")
   (use f u i in \<open>auto simp: Let_def\<close>)

lemma follow_symbols_keeps:
  assumes f: "\<forall>rhs s r s'. first_of_rhs n T g rhs s = Some (r, s') \<longrightarrow> I s \<longrightarrow> I s'"
    and u: "\<forall>s m. I (s\<lparr>follow_cache := m\<rparr>) = I s"
  shows "follow_symbols n T g A syms c s = Some (Inr (c', s')) \<Longrightarrow> I s \<Longrightarrow> I s'"
proof (induction syms arbitrary: c s)
  case Nil
  then show ?case by simp
next
  case (Cons B rest)
  show ?case
  proof (cases "is_nonterminal T B")
    case False
    with Cons show ?thesis by simp
  next
    case True
    with Cons.prems obtain c1 s1 where
      p: "propagate n T g A B rest c s = Some (Inr (c1, s1))"
      and r: "follow_symbols n T g A rest c1 s1 = Some (Inr (c', s'))"
      by (auto split: option.splits sum.splits)
    from propagate_keeps[of n T g I, OF f u p Cons.prems(2)] have "I s1" .
    with Cons.IH[OF r] show ?thesis .
  qed
qed

lemma follow_rhss_keeps:
  assumes f: "\<forall>rhs s r s'. first_of_rhs n T g rhs s = Some (r, s') \<longrightarrow> I s \<longrightarrow> I s'"
    and u: "\<forall>s m. I (s\<lparr>follow_cache := m\<rparr>) = I s"
  shows "follow_rhss n T g A rhss c s = Some (Inr (c', s')) \<Longrightarrow> I s \<Longrightarrow> I s'"
proof (induction rhss arbitrary: c s)
  case Nil
  then show ?case by simp
next
  case (Cons rhs rhss)
  from Cons.prems obtain c1 s1 where
    p: "follow_symbols n T g A rhs c s = Some (Inr (c1, s1))"
    and r: "follow_rhss n T g A rhss c1 s1 = Some (Inr (c', s'))"
    by (auto split: option.splits sum.splits)
  from follow_symbols_keeps[of n T g I, OF f u p Cons.prems(2)] have "I s1" .
  with Cons.IH[OF r] show ?case .
qed

lemma follow_pass_keeps:
  assumes f: "\<forall>rhs s r s'. first_of_rhs n T g rhs s = Some (r, s') \<longrightarrow> I s \<longrightarrow> I s'"
    and u: "\<forall>s m. I (s\<lparr>follow_cache := m\<rparr>) = I s"
  shows "follow_pass n T g ps c s = Some (Inr (c', s')) \<Longrightarrow> I s \<Longrightarrow> I s'"
proof (induction ps arbitrary: c s)
  case Nil
  then show ?case by simp
next
  case (Cons p ps)
  obtain A rhss where pp: "p = (A, rhss)" by (cases p)
  from Cons.prems pp obtain c1 s1 where
    p: "follow_rhss n T g A rhss c s = Some (Inr (c1, s1))"
    and r: "follow_pass n T g ps c1 s1 = Some (Inr (c', s'))"
    by (auto split: option.splits sum.splits)
  from follow_rhss_keeps[of n T g I, OF f u p Cons.prems(2)] have "I s1" .
  with Cons.IH[OF r] show ?case .
qed

lemma follow_while_keeps:
  assumes f: "\<forall>rhs s r s'. first_of_rhs n T g rhs s = Some (r, s') \<longrightarrow> I s \<longrightarrow> I s'"
    and u: "\<forall>s m. I (s\<lparr>follow_cache := m\<rparr>) = I s"
  shows "follow_while k n T g s = Some (Inr s') \<Longrightarrow> I s \<Longrightarrow> I s'"
proof (induction k arbitrary: s)
  case 0
  then show ?case by simp
next
  case (Suc k)
  from Suc.prems obtain c1 s1 where
    p: "follow_pass n T g (productions g) False s = Some (Inr (c1, s1))"
    and r: "if c1 then follow_while k n T g s1 = Some (Inr s') else s' = s1"
    by (auto split: option.splits sum.splits if_splits)
  from follow_pass_keeps[of n T g I, OF f u p Suc.prems(2)] have i: "I s1" .
  show ?case
  proof (cases c1)
    case True
    with r have "follow_while k n T g s1 = Some (Inr s')" by simp
    from Suc.IH[OF this i] show ?thesis .
  next
    case False
    with r i show ?thesis by simp
  qed
qed

lemma follow_all_keeps:
  assumes f: "\<forall>rhs s r s'. first_of_rhs n T g rhs s = Some (r, s') \<longrightarrow> I s \<longrightarrow> I s'"
    and u: "\<forall>s m. I (s\<lparr>follow_cache := m\<rparr>) = I s"
    and a: "follow_all n T g s = Some (Inr (fo, s'))" and i: "I s"
  shows "I s'"
proof -
  from a obtain fs where
    w: "follow_while n n T g
       (s\<lparr>follow_cache := (setdefault_all (map fst (productions g)) (follow_cache s))
                             (start g \<mapsto> insert DOLLAR fs)\<rparr>) = Some (Inr s')"
    by (rule follow_all_cases)
  from i have "I (s\<lparr>follow_cache := (setdefault_all (map fst (productions g)) (follow_cache s))
                             (start g \<mapsto> insert DOLLAR fs)\<rparr>)"
    using u by simp
  from follow_while_keeps[of n T g I, OF f u w this] show ?thesis .
qed

lemma pred_rhss_keeps:
  assumes f: "\<forall>rhs s r s'. first_of_rhs n T g rhs s = Some (r, s') \<longrightarrow> I s \<longrightarrow> I s'"
  shows "pred_rhss n T g A rhss preds s = Some (Inr (preds', s')) \<Longrightarrow> I s \<Longrightarrow> I s'"
proof (induction rhss arbitrary: preds s)
  case Nil
  then show ?case by simp
next
  case (Cons rhs rhss)
  from Cons.prems(1) obtain F s1 v where
    a: "first_of_rhs n T g rhs s = Some (F, s1)"
    and r: "pred_rhss n T g A rhss (preds(key A rhs \<mapsto> v)) s1 = Some (Inr (preds', s'))"
    by (auto simp: Let_def split: option.splits if_splits)
  from f a Cons.prems(2) have "I s1" by blast
  with Cons.IH[OF r] show ?case .
qed

lemma pred_prods_keeps:
  assumes f: "\<forall>rhs s r s'. first_of_rhs n T g rhs s = Some (r, s') \<longrightarrow> I s \<longrightarrow> I s'"
  shows "pred_prods n T g ps preds s = Some (Inr (preds', s')) \<Longrightarrow> I s \<Longrightarrow> I s'"
proof (induction ps arbitrary: preds s)
  case Nil
  then show ?case by simp
next
  case (Cons p ps)
  obtain A alts where p: "p = (A, alts)" by (cases p)
  from Cons.prems(1) p obtain preds1 s1 where
    a: "pred_rhss n T g A alts preds s = Some (Inr (preds1, s1))"
    and r: "pred_prods n T g ps preds1 s1 = Some (Inr (preds', s'))"
    by (auto split: option.splits sum.splits)
  from pred_rhss_keeps[of n T g I, OF f a Cons.prems(2)] have "I s1" .
  with Cons.IH[OF r] show ?case .
qed

lemma prediction_sets_keeps:
  assumes f: "\<forall>rhs s r s'. first_of_rhs n T g rhs s = Some (r, s') \<longrightarrow> I s \<longrightarrow> I s'"
    and u: "\<forall>s m. I (s\<lparr>follow_cache := m\<rparr>) = I s"
    and a: "prediction_sets n T g s = Some (Inr (preds, s'))" and i: "I s"
  shows "I s'"
proof -
  from a obtain fo s1 where
    fa: "follow_all n T g s = Some (Inr (fo, s1))"
    and pp: "pred_prods n T g (productions g) Map.empty s1 = Some (Inr (preds, s'))"
    by (auto simp: prediction_sets_def split: option.splits sum.splits)
  from follow_all_keeps[of n T g I, OF f u fa i] have "I s1" .
  from pred_prods_keeps[of n T g I, OF f pp this] show ?thesis .
qed

text \<open>The hypothesis of C10 holds on a fresh analyzer and after every method.\<close>

lemma nonkey_ok_reachable:
  "first n T g X s = Some (r, s') \<Longrightarrow> nonkey_ok g s \<Longrightarrow> nonkey_ok g s'"
  "first_of_rhs n T g rhs s = Some (r, s') \<Longrightarrow> nonkey_ok g s \<Longrightarrow> nonkey_ok g s'"
  "derives_epsilon n T g rhs s = Some (b, s') \<Longrightarrow> nonkey_ok g s \<Longrightarrow> nonkey_ok g s'"
  "follow_all n T g s = Some (Inr (fo, s')) \<Longrightarrow> nonkey_ok g s \<Longrightarrow> nonkey_ok g s'"
  "prediction_sets n T g s = Some (Inr (preds, s')) \<Longrightarrow> nonkey_ok g s \<Longrightarrow> nonkey_ok g s'"
proof -
  show "first n T g X s = Some (r, s') \<Longrightarrow> nonkey_ok g s \<Longrightarrow> nonkey_ok g s'"
    by (simp add: first_nonkey_ok(1))
  show "first_of_rhs n T g rhs s = Some (r, s') \<Longrightarrow> nonkey_ok g s \<Longrightarrow> nonkey_ok g s'"
    by (rule first_nonkey_ok(3))
  show "derives_epsilon n T g rhs s = Some (b, s') \<Longrightarrow> nonkey_ok g s \<Longrightarrow> nonkey_ok g s'"
    by (auto simp: derives_epsilon_def split: option.splits dest: first_nonkey_ok(3))
  show "follow_all n T g s = Some (Inr (fo, s')) \<Longrightarrow> nonkey_ok g s \<Longrightarrow> nonkey_ok g s'"
    by (rule follow_all_keeps[of n T g "nonkey_ok g"])
       (auto intro: first_nonkey_ok(3))
  show "prediction_sets n T g s = Some (Inr (preds, s')) \<Longrightarrow> nonkey_ok g s \<Longrightarrow> nonkey_ok g s'"
    by (rule prediction_sets_keeps[of n T g "nonkey_ok g"])
       (auto intro: first_nonkey_ok(3))
qed

section \<open>Termination of \<open>follow_all\<close>\<close>

lemma finite_syms_of: "finite (syms_of g)"
  by (auto simp: syms_of_def)

lemma finite_universe: "finite (universe g)"
  by (simp add: universe_def finite_syms_of)

lemma finite_keys_of: "finite (keys_of g)"
  by (simp add: keys_of_def)

lemma syms_of_universe: "syms_of g \<subseteq> universe g"
  by (auto simp: universe_def)

lemma syms_ofI: "(A, alts) \<in> set (productions g) \<Longrightarrow> rhs \<in> set alts \<Longrightarrow> set rhs \<subseteq> syms_of g"
  by (force simp: syms_of_def)

lemma alternatives_syms:
  "a \<in> set (alternatives g X) \<Longrightarrow> set a \<subseteq> syms_of g"
proof (cases "map_of (productions g) X")
  case None
  assume "a \<in> set (alternatives g X)"
  with None show ?thesis by (simp add: alternatives_def)
next
  case (Some alts)
  assume "a \<in> set (alternatives g X)"
  with Some have "a \<in> set alts" by (simp add: alternatives_def)
  moreover from Some have "(X, alts) \<in> set (productions g)" by (rule map_of_SomeD)
  ultimately show ?thesis by (rule syms_ofI[rotated])
qed

lemma caches_ok_empty: "caches_ok g empty_caches"
  by (simp add: caches_ok_def empty_caches_def)

lemma caches_ok_first_upd:
  "caches_ok g s \<Longrightarrow> r \<subseteq> universe g \<Longrightarrow>
   caches_ok g (s\<lparr>first_cache := (first_cache s)(X \<mapsto> r)\<rparr>)"
  by (simp add: caches_ok_def)

lemma caches_ok_rhs_upd:
  "caches_ok g s \<Longrightarrow> r \<subseteq> universe g \<union> set k \<Longrightarrow>
   caches_ok g (s\<lparr>first_rhs_cache := (first_rhs_cache s)(k \<mapsto> r)\<rparr>)"
  by (simp add: caches_ok_def)

lemma caches_ok_firstD: "caches_ok g s \<Longrightarrow> first_cache s X = Some S \<Longrightarrow> S \<subseteq> universe g"
  by (simp add: caches_ok_def)

lemma caches_ok_rhsD:
  "caches_ok g s \<Longrightarrow> first_rhs_cache s r = Some S \<Longrightarrow> S \<subseteq> universe g \<union> set r"
  by (simp add: caches_ok_def)

lemma first_caches_ok:
  "first n T g X s = Some (r, s') \<Longrightarrow> caches_ok g s \<Longrightarrow>
     caches_ok g s' \<and> r \<subseteq> universe g"
  "first_loop n T g X alts res s = Some (r, s') \<Longrightarrow> caches_ok g s \<Longrightarrow>
     res \<subseteq> universe g \<Longrightarrow> (\<forall>a\<in>set alts. set a \<subseteq> syms_of g) \<Longrightarrow>
     caches_ok g s' \<and> r \<subseteq> universe g"
  "first_of_rhs n T g rhs s = Some (r, s') \<Longrightarrow> caches_ok g s \<Longrightarrow>
     caches_ok g s' \<and> r \<subseteq> universe g \<union> set rhs"
  "rhs_loop n T g rhs res s = Some (r, s') \<Longrightarrow> caches_ok g s \<Longrightarrow>
     caches_ok g s' \<and> r \<subseteq> res \<union> universe g \<union> set rhs"
proof (induction n T g X s and n T g X alts res s and n T g rhs s and n T g rhs res s
       arbitrary: r s' and r s' and r s' and r s'
       rule: first_first_loop_first_of_rhs_rhs_loop.induct)
  case (1 T g X s)
  then show ?case by simp
next
  case (2 n T g X s)
  show ?case
  proof (cases "first_cache s X")
    case None
    with "2.prems" obtain s1 where
      l: "first_loop n T g X (alternatives g X) {}
            (s\<lparr>first_cache := (first_cache s)(X \<mapsto> {})\<rparr>) = Some (r, s1)"
      and s': "s' = s1\<lparr>first_cache := (first_cache s1)(X \<mapsto> r)\<rparr>"
      by (auto split: option.splits)
    from "2.prems"(2) have "caches_ok g (s\<lparr>first_cache := (first_cache s)(X \<mapsto> {})\<rparr>)"
      by (rule caches_ok_first_upd) simp
    from "2.IH"[OF None l this] have "caches_ok g s1 \<and> r \<subseteq> universe g"
      by (simp add: alternatives_syms)
    then show ?thesis unfolding s' by (simp add: caches_ok_first_upd)
  next
    case (Some a)
    with "2.prems" show ?thesis by (auto dest: caches_ok_firstD)
  qed
next
  case (3 n T g X result s)
  then show ?case by simp
next
  case (4 n T g X alpha alphas result s)
  let ?res = "result \<union> (fa - {EPS}) \<union> (if EPS \<in> fa then {EPS} else {})"
  from "4.prems"(1) obtain fa s1 where
    a: "first_of_rhs n T g alpha s = Some (fa, s1)"
    and l: "first_loop n T g X alphas
              (result \<union> (fa - {EPS}) \<union> (if EPS \<in> fa then {EPS} else {}))
              (s1\<lparr>first_cache := (first_cache s1)
                    (X \<mapsto> result \<union> (fa - {EPS}) \<union> (if EPS \<in> fa then {EPS} else {}))\<rparr>)
            = Some (r, s')"
    by (auto split: option.splits simp: Let_def)
  from "4.IH"(1)[OF a "4.prems"(2)] have ok1: "caches_ok g s1" and fa: "fa \<subseteq> universe g \<union> set alpha"
    by simp_all
  from "4.prems"(4) have "set alpha \<subseteq> universe g" using syms_of_universe by auto
  with fa "4.prems"(3)
  have res: "result \<union> (fa - {EPS}) \<union> (if EPS \<in> fa then {EPS} else {}) \<subseteq> universe g"
    by (auto simp: universe_def)
  from ok1 res have "caches_ok g (s1\<lparr>first_cache := (first_cache s1)
                    (X \<mapsto> result \<union> (fa - {EPS}) \<union> (if EPS \<in> fa then {EPS} else {}))\<rparr>)"
    by (rule caches_ok_first_upd)
  from "4.IH"(2)[OF a refl refl l this res] "4.prems"(4) show ?case by simp
next
  case (5 T g rhs s)
  then show ?case by simp
next
  case (6 n T g rhs s)
  show ?case
  proof (cases "first_rhs_cache s rhs")
    case None
    show ?thesis
    proof (cases "length rhs = 0")
      case True
      with None "6.prems" show ?thesis
        by (auto intro!: caches_ok_rhs_upd simp: universe_def)
    next
      case False
      with None "6.prems" obtain s1 where
        l: "rhs_loop n T g rhs {} s = Some (r, s1)"
        and s': "s' = s1\<lparr>first_rhs_cache := (first_rhs_cache s1)(rhs \<mapsto> r)\<rparr>"
        by (auto split: option.splits)
      from "6.IH"[OF None False l "6.prems"(2)]
      have "caches_ok g s1" and "r \<subseteq> universe g \<union> set rhs" by simp_all
      then show ?thesis unfolding s' by (simp add: caches_ok_rhs_upd)
    qed
  next
    case (Some a)
    with "6.prems" show ?thesis by (auto dest: caches_ok_rhsD)
  qed
next
  case (7 n T g result s)
  then show ?case by (auto simp: universe_def)
next
  case (8 n T g sy rest result s)
  show ?case
  proof (cases "is_nonterminal T sy")
    case False
    with "8.prems" show ?thesis by auto
  next
    case True
    with "8.prems" obtain fs s1 where
      f: "first n T g sy s = Some (fs, s1)"
      and rest: "if EPS \<in> fs
                 then rhs_loop n T g rest (result \<union> (fs - {EPS})) s1 = Some (r, s')
                 else s' = s1 \<and> r = result \<union> (fs - {EPS})"
      by (auto split: option.splits if_splits simp: Let_def)
    from True have nn: "\<not> \<not> is_nonterminal T sy" by simp
    from "8.IH"(1)[OF nn f "8.prems"(2)] have ok1: "caches_ok g s1" and fs: "fs \<subseteq> universe g"
      by simp_all
    show ?thesis
    proof (cases "EPS \<in> fs")
      case True
      with rest have "rhs_loop n T g rest (result \<union> (fs - {EPS})) s1 = Some (r, s')" by simp
      from "8.IH"(2)[OF nn f refl refl True this ok1] fs show ?thesis by auto
    next
      case False
      with rest ok1 fs show ?thesis by auto
    qed
  qed
qed

lemma uncached_mono: "cache_ext s s' \<Longrightarrow> uncached g s' \<le> uncached g s"
  unfolding uncached_def cache_ext_def
  by (intro card_mono) (auto simp: finite_syms_of)

lemma uncached_first_upd:
  "uncached g (s\<lparr>first_cache := (first_cache s)(X \<mapsto> v)\<rparr>) \<le> uncached g s"
  unfolding uncached_def by (intro card_mono) (auto simp: finite_syms_of)

lemma uncached_placeholder:
  assumes "X \<in> syms_of g" and "first_cache s X = None" and "uncached g s \<le> Suc k"
  shows "uncached g (s\<lparr>first_cache := (first_cache s)(X \<mapsto> v)\<rparr>) \<le> k"
proof -
  have "syms_of g - dom ((first_cache s)(X \<mapsto> v)) = (syms_of g - dom (first_cache s)) - {X}"
    by auto
  moreover from assms(1,2) have "X \<in> syms_of g - dom (first_cache s)" by auto
  ultimately have "card (syms_of g - dom ((first_cache s)(X \<mapsto> v)))
      = card (syms_of g - dom (first_cache s)) - 1"
    by (simp add: finite_syms_of)
  with assms(3) show ?thesis by (simp add: uncached_def)
qed

lemma uncached_zero:
  assumes "uncached g s = 0" and "X \<in> syms_of g"
  shows "first_cache s X \<noteq> None"
proof -
  from assms(1) have "syms_of g - dom (first_cache s) = {}"
    by (simp add: uncached_def finite_syms_of)
  with assms(2) show ?thesis by auto
qed

lemma rhs_loop_returns:
  assumes H: "\<forall>X s. uncached g s \<le> k \<longrightarrow> X \<in> syms_of g \<longrightarrow> first n T g X s \<noteq> None"
  shows "set rhs \<subseteq> syms_of g \<Longrightarrow> uncached g s \<le> k \<Longrightarrow> rhs_loop n T g rhs res s \<noteq> None"
proof (induction rhs arbitrary: res s)
  case Nil
  then show ?case by simp
next
  case (Cons sy rest)
  show ?case
  proof (cases "is_nonterminal T sy")
    case False
    then show ?thesis by simp
  next
    case True
    from H Cons.prems obtain fs s1 where f: "first n T g sy s = Some (fs, s1)"
      by fastforce
    from first_cache_ext(1)[OF f] have "uncached g s1 \<le> uncached g s" by (rule uncached_mono)
    with Cons.prems(2) have "uncached g s1 \<le> k" by simp
    with Cons.IH[of s1] Cons.prems(1) have "rhs_loop n T g rest (res \<union> (fs - {EPS})) s1 \<noteq> None"
      by simp
    with True f show ?thesis by (simp add: Let_def)
  qed
qed

lemma first_loop_returns:
  assumes H: "\<forall>rhs s. uncached g s \<le> k \<longrightarrow> set rhs \<subseteq> syms_of g \<longrightarrow>
                first_of_rhs n T g rhs s \<noteq> None"
  shows "\<forall>a\<in>set alts. set a \<subseteq> syms_of g \<Longrightarrow> uncached g s \<le> k \<Longrightarrow>
         first_loop n T g X alts res s \<noteq> None"
proof (induction alts arbitrary: res s)
  case Nil
  then show ?case by simp
next
  case (Cons alpha alphas)
  from H Cons.prems obtain fa s1 where f: "first_of_rhs n T g alpha s = Some (fa, s1)"
    by fastforce
  let ?res = "res \<union> (fa - {EPS}) \<union> (if EPS \<in> fa then {EPS} else {})"
  from first_cache_ext(3)[OF f] have "uncached g s1 \<le> uncached g s" by (rule uncached_mono)
  with Cons.prems(2) uncached_first_upd[of g s1 X ?res]
  have "uncached g (s1\<lparr>first_cache := (first_cache s1)(X \<mapsto> ?res)\<rparr>) \<le> k"
    by simp
  with Cons.IH[of "s1\<lparr>first_cache := (first_cache s1)(X \<mapsto> ?res)\<rparr>" ?res] Cons.prems(1)
  have "first_loop n T g X alphas ?res (s1\<lparr>first_cache := (first_cache s1)(X \<mapsto> ?res)\<rparr>) \<noteq> None"
    by simp
  with f show ?case by (simp add: Let_def)
qed

lemma first_returns_aux:
  "(\<forall>n X s. uncached g s \<le> k \<longrightarrow> X \<in> syms_of g \<longrightarrow> 2 * k + 1 \<le> n \<longrightarrow>
      first n T g X s \<noteq> None) \<and>
   (\<forall>n rhs s. uncached g s \<le> k \<longrightarrow> set rhs \<subseteq> syms_of g \<longrightarrow> 2 * k + 2 \<le> n \<longrightarrow>
      first_of_rhs n T g rhs s \<noteq> None)"
proof (induction k)
  case 0
  have a: "first n T g X s \<noteq> None"
    if "uncached g s \<le> 0" "X \<in> syms_of g" "1 \<le> n" for n X s
  proof -
    from that(1,2) have "first_cache s X \<noteq> None" by (simp add: uncached_zero)
    moreover from that(3) obtain n' where "n = Suc n'" by (cases n) auto
    ultimately show ?thesis by auto
  qed
  have b: "first_of_rhs n T g rhs s \<noteq> None"
    if u: "uncached g s \<le> 0" and r: "set rhs \<subseteq> syms_of g" and n: "2 \<le> n" for n rhs s
  proof -
    from n obtain n' where n': "n = Suc n'" "1 \<le> n'" by (cases n) auto
    have "\<forall>X s. uncached g s \<le> 0 \<longrightarrow> X \<in> syms_of g \<longrightarrow> first n' T g X s \<noteq> None"
      using a n'(2) by blast
    from rhs_loop_returns[OF this r u] have "rhs_loop n' T g rhs {} s \<noteq> None" .
    then show ?thesis unfolding n' by (auto split: option.splits)
  qed
  from a b show ?case by simp
next
  case (Suc k)
  then have IHb: "\<And>n rhs s. uncached g s \<le> k \<Longrightarrow> set rhs \<subseteq> syms_of g \<Longrightarrow> 2 * k + 2 \<le> n \<Longrightarrow>
      first_of_rhs n T g rhs s \<noteq> None"
    by blast
  have a: "first n T g X s \<noteq> None"
    if u: "uncached g s \<le> Suc k" and X: "X \<in> syms_of g" and n: "2 * Suc k + 1 \<le> n" for n X s
  proof -
    from n obtain n' where n': "n = Suc n'" "2 * k + 2 \<le> n'" by (cases n) auto
    show ?thesis
    proof (cases "first_cache s X")
      case (Some r)
      then show ?thesis unfolding n' by simp
    next
      case None
      let ?s0 = "s\<lparr>first_cache := (first_cache s)(X \<mapsto> {})\<rparr>"
      from uncached_placeholder[OF X None u] have u0: "uncached g ?s0 \<le> k" .
      have "\<forall>rhs s. uncached g s \<le> k \<longrightarrow> set rhs \<subseteq> syms_of g \<longrightarrow>
                first_of_rhs n' T g rhs s \<noteq> None"
        using IHb n'(2) by blast
      from first_loop_returns[OF this _ u0, of "alternatives g X" X "{}"]
      have "first_loop n' T g X (alternatives g X) {} ?s0 \<noteq> None"
        by (simp add: alternatives_syms)
      with None show ?thesis unfolding n' by (auto split: option.splits)
    qed
  qed
  have b: "first_of_rhs n T g rhs s \<noteq> None"
    if u: "uncached g s \<le> Suc k" and r: "set rhs \<subseteq> syms_of g" and n: "2 * Suc k + 2 \<le> n"
    for n rhs s
  proof -
    from n obtain n' where n': "n = Suc n'" "2 * Suc k + 1 \<le> n'" by (cases n) auto
    have "\<forall>X s. uncached g s \<le> Suc k \<longrightarrow> X \<in> syms_of g \<longrightarrow> first n' T g X s \<noteq> None"
      using a n'(2) by blast
    from rhs_loop_returns[OF this r u] have "rhs_loop n' T g rhs {} s \<noteq> None" .
    then show ?thesis unfolding n' by (auto split: option.splits)
  qed
  from a b show ?case by blast
qed

lemma uncached_le: "uncached g s \<le> card (syms_of g)"
  unfolding uncached_def by (intro card_mono) (auto simp: finite_syms_of)

lemma first_of_rhs_returns:
  assumes "set rhs \<subseteq> syms_of g" and "depth_bound g \<le> n"
  shows "\<exists>r s'. first_of_rhs n T g rhs s = Some (r, s')"
proof -
  from first_returns_aux[of g "card (syms_of g)" T] uncached_le[of g s] assms
  have "first_of_rhs n T g rhs s \<noteq> None"
    unfolding depth_bound_def by blast
  then show ?thesis by auto
qed

lemma missing_subset: "missing g m \<subseteq> keys_of g \<times> universe g"
  by (auto simp: missing_def)

lemma finite_missing: "finite (missing g m)"
  by (rule finite_subset[OF missing_subset]) (simp add: finite_keys_of finite_universe)

lemma missing_upd:
  assumes "m B = Some bef" and "bef \<subseteq> new"
  shows "missing g (m(B \<mapsto> new)) \<subseteq> missing g m"
proof
  fix p assume p: "p \<in> missing g (m(B \<mapsto> new))"
  obtain K x where Kx: "p = (K, x)" by (cases p)
  show "p \<in> missing g m"
  proof (cases "K = B")
    case True
    with p Kx assms show ?thesis by (auto simp: missing_def)
  next
    case False
    with p Kx show ?thesis by (simp add: missing_def)
  qed
qed

lemma missing_upd_strict:
  assumes "m B = Some bef" and "bef \<subseteq> new" and "new \<noteq> bef"
    and "B \<in> keys_of g" and "new \<subseteq> universe g"
  shows "missing g (m(B \<mapsto> new)) \<subset> missing g m"
proof -
  from assms(2,3) obtain x where x: "x \<in> new" "x \<notin> bef" by auto
  with assms(1,4,5) have "(B, x) \<in> missing g m" by (auto simp: missing_def)
  moreover from x have "(B, x) \<notin> missing g (m(B \<mapsto> new))" by (simp add: missing_def)
  moreover from assms(1,2) have "missing g (m(B \<mapsto> new)) \<subseteq> missing g m"
    by (rule missing_upd)
  ultimately show ?thesis by auto
qed

lemma progress_refl: "follow_ready g s \<Longrightarrow> progress g c s c s"
  by (simp add: progress_def)

lemma progress_trans:
  "progress g c s c1 s1 \<Longrightarrow> progress g c1 s1 c2 s2 \<Longrightarrow> progress g c s c2 s2"
  unfolding progress_def by auto

lemma follow_upd_progress:
  assumes ok: "caches_ok g s1" and fo: "follow_cache s1 = follow_cache s"
    and r: "follow_ready g s"
    and B: "B \<in> keys_of g" "follow_cache s B = Some bef"
    and new: "bef \<subseteq> new" "new \<subseteq> universe g"
  shows "progress g c s (c \<or> new \<noteq> bef) (s1\<lparr>follow_cache := (follow_cache s)(B \<mapsto> new)\<rparr>)"
proof -
  let ?s' = "s1\<lparr>follow_cache := (follow_cache s)(B \<mapsto> new)\<rparr>"
  from ok r B(1) new(2) have "caches_ok g ?s'"
    by (auto simp: caches_ok_def follow_ready_def)
  moreover from r have "keys_of g \<subseteq> dom (follow_cache ?s')"
    by (auto simp: follow_ready_def)
  moreover have "deficit g ?s' \<le> deficit g s"
  proof -
    from B(2) new(1) have "missing g ((follow_cache s)(B \<mapsto> new)) \<subseteq> missing g (follow_cache s)"
      by (rule missing_upd)
    then show ?thesis by (simp add: deficit_def card_mono finite_missing)
  qed
  moreover have "deficit g ?s' < deficit g s" if "new \<noteq> bef"
  proof -
    from B(2) new(1) that B(1) new(2)
    have "missing g ((follow_cache s)(B \<mapsto> new)) \<subset> missing g (follow_cache s)"
      by (rule missing_upd_strict)
    then show ?thesis by (simp add: deficit_def psubset_card_mono finite_missing)
  qed
  ultimately show ?thesis by (auto simp: progress_def follow_ready_def)
qed

lemma propagate_total:
  assumes v: "valid_grammar T g" and r: "follow_ready g s" and A: "A \<in> keys_of g"
    and nt: "is_nonterminal T B" and B: "B \<in> syms_of g" and rest: "set rest \<subseteq> syms_of g"
    and n: "depth_bound g \<le> n"
  shows "\<exists>c' s'. propagate n T g A B rest c s = Some (Inr (c', s')) \<and> progress g c s c' s'"
proof -
  from first_of_rhs_returns[OF rest n] obtain fr s1 where
    f: "first_of_rhs n T g rest s = Some (fr, s1)" by blast
  from r have ok: "caches_ok g s" by (simp add: follow_ready_def)
  from first_caches_ok(3)[OF f ok] have ok1: "caches_ok g s1" and "fr \<subseteq> universe g \<union> set rest"
    by simp_all
  with rest syms_of_universe[of g] have fr: "fr \<subseteq> universe g" by auto
  from first_cache_ext(3)[OF f] have fo: "follow_cache s1 = follow_cache s"
    by (simp add: cache_ext_def)
  from v nt B have Bk: "B \<in> keys_of g" by (auto simp: valid_grammar_def)
  with r obtain bef where bef: "follow_cache s B = Some bef"
    by (auto simp: follow_ready_def)
  from A r obtain fa where fa: "follow_cache s A = Some fa"
    by (auto simp: follow_ready_def)
  from ok bef have befU: "bef \<subseteq> universe g" by (auto simp: caches_ok_def)
  from ok fa have faU: "fa \<subseteq> universe g" by (auto simp: caches_ok_def)
  let ?fb = "bef \<union> (fr - {EPS})"
  show ?thesis
  proof (cases "EPS \<in> fr \<or> length rest = 0")
    case False
    then have "propagate n T g A B rest c s
        = Some (Inr (c \<or> ?fb \<noteq> bef, s1\<lparr>follow_cache := (follow_cache s)(B \<mapsto> ?fb)\<rparr>))"
      using f fo bef by (simp add: propagate_def Let_def)
    moreover have "progress g c s (c \<or> ?fb \<noteq> bef)
        (s1\<lparr>follow_cache := (follow_cache s)(B \<mapsto> ?fb)\<rparr>)"
      by (rule follow_upd_progress[OF ok1 fo r Bk bef]) (use fr befU in auto)
    ultimately show ?thesis by blast
  next
    case True
    define fa' where "fa' = (if A = B then ?fb else fa)"
    have "propagate n T g A B rest c s
        = Some (Inr (c \<or> ?fb \<union> fa' \<noteq> bef, s1\<lparr>follow_cache := (follow_cache s)(B \<mapsto> ?fb \<union> fa')\<rparr>))"
      using True f fo bef fa by (auto simp: propagate_def Let_def fa'_def)
    moreover have "progress g c s (c \<or> ?fb \<union> fa' \<noteq> bef)
        (s1\<lparr>follow_cache := (follow_cache s)(B \<mapsto> ?fb \<union> fa')\<rparr>)"
      by (rule follow_upd_progress[OF ok1 fo r Bk bef]) (use fr befU faU in \<open>auto simp: fa'_def\<close>)
    ultimately show ?thesis by blast
  qed
qed

lemma follow_symbols_total:
  assumes v: "valid_grammar T g" and A: "A \<in> keys_of g" and n: "depth_bound g \<le> n"
  shows "set syms \<subseteq> syms_of g \<Longrightarrow> follow_ready g s \<Longrightarrow>
         \<exists>c' s'. follow_symbols n T g A syms c s = Some (Inr (c', s')) \<and> progress g c s c' s'"
proof (induction syms arbitrary: c s)
  case Nil
  then show ?case by (simp add: progress_refl)
next
  case (Cons B rest)
  from Cons.prems(1) have B: "B \<in> syms_of g" and rest: "set rest \<subseteq> syms_of g" by simp_all
  show ?case
  proof (cases "is_nonterminal T B")
    case False
    with Cons.IH[OF rest Cons.prems(2), of c] show ?thesis by simp
  next
    case True
    from propagate_total[OF v Cons.prems(2) A True B rest n, of c] obtain c1 s1 where
      p: "propagate n T g A B rest c s = Some (Inr (c1, s1))" and g1: "progress g c s c1 s1"
      by blast
    from g1 have "follow_ready g s1" by (simp add: progress_def)
    from Cons.IH[OF rest this, of c1] obtain c' s' where
      l: "follow_symbols n T g A rest c1 s1 = Some (Inr (c', s'))" and g2: "progress g c1 s1 c' s'"
      by blast
    from True p l have "follow_symbols n T g A (B # rest) c s = Some (Inr (c', s'))" by simp
    with progress_trans[OF g1 g2] show ?thesis by blast
  qed
qed

lemma follow_rhss_total:
  assumes v: "valid_grammar T g" and A: "A \<in> keys_of g" and n: "depth_bound g \<le> n"
  shows "\<forall>rhs\<in>set rhss. set rhs \<subseteq> syms_of g \<Longrightarrow> follow_ready g s \<Longrightarrow>
         \<exists>c' s'. follow_rhss n T g A rhss c s = Some (Inr (c', s')) \<and> progress g c s c' s'"
proof (induction rhss arbitrary: c s)
  case Nil
  then show ?case by (simp add: progress_refl)
next
  case (Cons rhs rhss)
  from Cons.prems(1) have rhs: "set rhs \<subseteq> syms_of g"
    and rhss: "\<forall>rhs\<in>set rhss. set rhs \<subseteq> syms_of g" by simp_all
  from follow_symbols_total[OF v A n rhs Cons.prems(2), of c] obtain c1 s1 where
    p: "follow_symbols n T g A rhs c s = Some (Inr (c1, s1))" and g1: "progress g c s c1 s1"
    by blast
  from g1 have "follow_ready g s1" by (simp add: progress_def)
  from Cons.IH[OF rhss this, of c1] obtain c' s' where
    l: "follow_rhss n T g A rhss c1 s1 = Some (Inr (c', s'))" and g2: "progress g c1 s1 c' s'"
    by blast
  from p l have "follow_rhss n T g A (rhs # rhss) c s = Some (Inr (c', s'))" by simp
  with progress_trans[OF g1 g2] show ?case by blast
qed

lemma follow_pass_total:
  assumes v: "valid_grammar T g" and n: "depth_bound g \<le> n"
  shows "set ps \<subseteq> set (productions g) \<Longrightarrow> follow_ready g s \<Longrightarrow>
         \<exists>c' s'. follow_pass n T g ps c s = Some (Inr (c', s')) \<and> progress g c s c' s'"
proof (induction ps arbitrary: c s)
  case Nil
  then show ?case by (simp add: progress_refl)
next
  case (Cons p ps)
  obtain A rhss where pp: "p = (A, rhss)" by (cases p)
  from Cons.prems(1) pp have mem: "(A, rhss) \<in> set (productions g)"
    and ps: "set ps \<subseteq> set (productions g)" by simp_all
  from mem have A: "A \<in> keys_of g" by (force simp: keys_of_def)
  have rhss: "\<forall>rhs\<in>set rhss. set rhs \<subseteq> syms_of g"
  proof
    fix rhs assume "rhs \<in> set rhss"
    with mem show "set rhs \<subseteq> syms_of g" by (rule syms_ofI)
  qed
  from follow_rhss_total[OF v A n rhss Cons.prems(2), of c] obtain c1 s1 where
    p: "follow_rhss n T g A rhss c s = Some (Inr (c1, s1))" and g1: "progress g c s c1 s1"
    by blast
  from g1 have "follow_ready g s1" by (simp add: progress_def)
  from Cons.IH[OF ps this, of c1] obtain c' s' where
    l: "follow_pass n T g ps c1 s1 = Some (Inr (c', s'))" and g2: "progress g c1 s1 c' s'"
    by blast
  from p l pp have "follow_pass n T g (p # ps) c s = Some (Inr (c', s'))" by simp
  with progress_trans[OF g1 g2] show ?case by blast
qed

lemma follow_while_total:
  assumes v: "valid_grammar T g" and n: "depth_bound g \<le> n"
  shows "follow_ready g s \<Longrightarrow> deficit g s < k \<Longrightarrow>
         \<exists>s'. follow_while k n T g s = Some (Inr s') \<and> follow_ready g s'"
proof (induction k arbitrary: s)
  case 0
  then show ?case by simp
next
  case (Suc k)
  from follow_pass_total[OF v n subset_refl Suc.prems(1), of False] obtain c1 s1 where
    p: "follow_pass n T g (productions g) False s = Some (Inr (c1, s1))"
    and g1: "progress g False s c1 s1"
    by blast
  from g1 have r1: "follow_ready g s1" by (simp add: progress_def)
  show ?case
  proof (cases c1)
    case False
    with p r1 show ?thesis by simp
  next
    case True
    with g1 have "deficit g s1 < deficit g s" by (simp add: progress_def)
    with Suc.prems(2) have "deficit g s1 < k" by simp
    from Suc.IH[OF r1 this] True p show ?thesis by simp
  qed
qed

lemma setdefault_all_eq:
  "setdefault_all ks m k =
     (case m k of Some v \<Rightarrow> Some v | None \<Rightarrow> if k \<in> set ks then Some {} else None)"
  by (induction ks arbitrary: m) (auto split: option.splits)

lemma deficit_le: "deficit g s \<le> card (keys_of g) * card (universe g)"
proof -
  have "card (missing g (follow_cache s)) \<le> card (keys_of g \<times> universe g)"
    by (rule card_mono[OF _ missing_subset]) (simp add: finite_keys_of finite_universe)
  then show ?thesis by (simp add: deficit_def card_cartesian_product)
qed

lemma follow_ready_seed:
  assumes v: "valid_grammar T g" and ok: "caches_ok g s"
  shows "\<exists>fs. setdefault_all (map fst (productions g)) (follow_cache s) (start g) = Some fs \<and>
              follow_ready g
                (s\<lparr>follow_cache := (setdefault_all (map fst (productions g)) (follow_cache s))
                                     (start g \<mapsto> insert DOLLAR fs)\<rparr>)"
proof -
  let ?m = "setdefault_all (map fst (productions g)) (follow_cache s)"
  have keys: "set (map fst (productions g)) = keys_of g" by (simp add: keys_of_def)
  from v have st: "start g \<in> keys_of g" by (simp add: valid_grammar_def)
  have m: "X \<in> keys_of g \<and> S \<subseteq> universe g" if "?m X = Some S" for X S
    using that ok unfolding setdefault_all_eq keys
    by (auto simp: caches_ok_def split: option.splits if_splits)
  have d: "keys_of g \<subseteq> dom ?m"
    unfolding setdefault_all_eq keys by (auto split: option.splits)
  with st obtain fs where fs: "?m (start g) = Some fs" by auto
  from m[OF fs] have fsU: "fs \<subseteq> universe g" by simp
  let ?s1 = "s\<lparr>follow_cache := ?m(start g \<mapsto> insert DOLLAR fs)\<rparr>"
  from ok m st fsU have "caches_ok g ?s1"
    by (auto simp: caches_ok_def universe_def)
  moreover from d have "keys_of g \<subseteq> dom (follow_cache ?s1)" by auto
  ultimately show ?thesis using fs by (auto simp: follow_ready_def)
qed

text \<open>
  A part of a pass never lowers the dirty flag, and leaves the follow cache as it was
  when the flag is still down at its end; so the loop ends with a pass that changed no
  FOLLOW set.
\<close>

lemma propagate_flag:
  assumes "propagate n T g A B rest c s = Some (Inr (c', s'))"
  shows "(c \<longrightarrow> c') \<and> (\<not> c' \<longrightarrow> follow_cache s' = follow_cache s)"
  using assms
  by (elim propagate_cases, cases "EPS \<in> fst (the (first_of_rhs n T g rest s)) \<or> length rest = 0")
     (auto simp: Let_def fun_upd_idem)

lemma follow_symbols_flag:
  "follow_symbols n T g A syms c s = Some (Inr (c', s')) \<Longrightarrow>
   (c \<longrightarrow> c') \<and> (\<not> c' \<longrightarrow> follow_cache s' = follow_cache s)"
proof (induction syms arbitrary: c s)
  case Nil
  then show ?case by simp
next
  case (Cons B rest)
  show ?case
  proof (cases "is_nonterminal T B")
    case False
    with Cons show ?thesis by simp
  next
    case True
    with Cons.prems obtain c1 s1 where
      p: "propagate n T g A B rest c s = Some (Inr (c1, s1))"
      and r: "follow_symbols n T g A rest c1 s1 = Some (Inr (c', s'))"
      by (auto split: option.splits sum.splits)
    from propagate_flag[OF p] Cons.IH[OF r] show ?thesis by auto
  qed
qed

lemma follow_rhss_flag:
  "follow_rhss n T g A rhss c s = Some (Inr (c', s')) \<Longrightarrow>
   (c \<longrightarrow> c') \<and> (\<not> c' \<longrightarrow> follow_cache s' = follow_cache s)"
proof (induction rhss arbitrary: c s)
  case Nil
  then show ?case by simp
next
  case (Cons rhs rhss)
  from Cons.prems obtain c1 s1 where
    p: "follow_symbols n T g A rhs c s = Some (Inr (c1, s1))"
    and r: "follow_rhss n T g A rhss c1 s1 = Some (Inr (c', s'))"
    by (auto split: option.splits sum.splits)
  from follow_symbols_flag[OF p] Cons.IH[OF r] show ?case by auto
qed

lemma follow_pass_flag:
  "follow_pass n T g ps c s = Some (Inr (c', s')) \<Longrightarrow>
   (c \<longrightarrow> c') \<and> (\<not> c' \<longrightarrow> follow_cache s' = follow_cache s)"
proof (induction ps arbitrary: c s)
  case Nil
  then show ?case by simp
next
  case (Cons p ps)
  obtain A rhss where pp: "p = (A, rhss)" by (cases p)
  from Cons.prems pp obtain c1 s1 where
    p: "follow_rhss n T g A rhss c s = Some (Inr (c1, s1))"
    and r: "follow_pass n T g ps c1 s1 = Some (Inr (c', s'))"
    by (auto split: option.splits sum.splits)
  from follow_rhss_flag[OF p] Cons.IH[OF r] show ?case by auto
qed

lemma follow_while_stable:
  "follow_while k n T g s = Some (Inr s') \<Longrightarrow>
   \<exists>s0. follow_pass n T g (productions g) False s0 = Some (Inr (False, s')) \<and>
        follow_cache s0 = follow_cache s' \<and> fo_le (follow_cache s) (follow_cache s0)"
proof (induction k arbitrary: s)
  case 0
  then show ?case by simp
next
  case (Suc k)
  from Suc.prems obtain c1 s1 where
    p: "follow_pass n T g (productions g) False s = Some (Inr (c1, s1))"
    and r: "if c1 then follow_while k n T g s1 = Some (Inr s') else s' = s1"
    by (auto split: option.splits sum.splits if_splits)
  show ?case
  proof (cases c1)
    case True
    with r have "follow_while k n T g s1 = Some (Inr s')" by simp
    from Suc.IH[OF this] obtain s0 where
      "follow_pass n T g (productions g) False s0 = Some (Inr (False, s'))"
      "follow_cache s0 = follow_cache s'" "fo_le (follow_cache s1) (follow_cache s0)"
      by blast
    with follow_pass_fo_le[OF p] show ?thesis by (blast intro: fo_le_trans)
  next
    case False
    with r p have "follow_pass n T g (productions g) False s = Some (Inr (False, s'))" by simp
    with follow_pass_flag[OF this] show ?thesis by (auto intro: fo_le_refl)
  qed
qed

text \<open>
  C4. For a structurally valid grammar \<open>follow_all\<close> returns a mapping and raises no
  error, once the bounds on the number of passes and on the depth of the call stack are at
  least \<open>follow_bound g\<close>: every subscript finds its key, every call of \<open>first_of_rhs\<close>
  returns, and every pass that sets the dirty flag has added a member of the finite universe
  to a FOLLOW set. The mapping returned is the follow cache, no smaller than it was before
  the call, with an entry for every key and \<open>$\<close> in the entry of the start symbol, at the
  end of a full pass over the productions that left the dirty flag down and changed no
  FOLLOW set.
\<close>

theorem follow_all_terminates:
  assumes "valid_grammar T g" and "caches_ok g s" and "follow_bound g \<le> n"
  shows "\<exists>fo s' s0.
           follow_all n T g s = Some (Inr (fo, s')) \<and> fo = follow_cache s' \<and>
           caches_ok g s' \<and> fo_le (follow_cache s) fo \<and> keys_of g \<subseteq> dom fo \<and>
           (\<exists>S. fo (start g) = Some S \<and> DOLLAR \<in> S) \<and>
           follow_pass n T g (productions g) False s0 = Some (Inr (False, s')) \<and>
           follow_cache s0 = fo"
proof -
  let ?m = "setdefault_all (map fst (productions g)) (follow_cache s)"
  from follow_ready_seed[OF assms(1,2)] obtain fs where
    fs: "?m (start g) = Some fs"
    and r: "follow_ready g (s\<lparr>follow_cache := ?m(start g \<mapsto> insert DOLLAR fs)\<rparr>)"
    by blast
  from assms(3) have n: "depth_bound g \<le> n"
    and k: "card (keys_of g) * card (universe g) < n"
    by (simp_all add: follow_bound_def)
  from k deficit_le[of g "s\<lparr>follow_cache := ?m(start g \<mapsto> insert DOLLAR fs)\<rparr>"]
  have "deficit g (s\<lparr>follow_cache := ?m(start g \<mapsto> insert DOLLAR fs)\<rparr>) < n"
    by simp
  from follow_while_total[OF assms(1) n r this] obtain s' where
    w: "follow_while n n T g (s\<lparr>follow_cache := ?m(start g \<mapsto> insert DOLLAR fs)\<rparr>)
          = Some (Inr s')"
    and r': "follow_ready g s'"
    by blast
  from follow_while_stable[OF w] obtain s0 where
    p: "follow_pass n T g (productions g) False s0 = Some (Inr (False, s'))"
    and e: "follow_cache s0 = follow_cache s'"
    and l: "fo_le (?m(start g \<mapsto> insert DOLLAR fs)) (follow_cache s0)"
    by auto
  have "fo_le (follow_cache s) ?m" by (rule fo_le_setdefault_all)
  moreover from fs have "fo_le ?m (?m(start g \<mapsto> insert DOLLAR fs))"
    by (rule fo_le_upd) auto
  ultimately have "fo_le (follow_cache s) (follow_cache s')"
    using l e by (auto intro: fo_le_trans)
  moreover from fo_leD[OF l, of "start g" "insert DOLLAR fs"] e
  have "\<exists>S. follow_cache s' (start g) = Some S \<and> DOLLAR \<in> S"
    by auto
  moreover from fs w have "follow_all n T g s = Some (Inr (follow_cache s', s'))"
    by (simp add: follow_all_def Let_def)
  moreover from r' have "caches_ok g s'" "keys_of g \<subseteq> dom (follow_cache s')"
    by (simp_all add: follow_ready_def)
  ultimately show ?thesis using p e by blast
qed

lemma valid_grammar_G_ab: "valid_grammar latin_db G_ab"
  using latin_db_syms
  by (auto simp: valid_grammar_def keys_of_def syms_of_def G_ab_def lit_def EPS_def)

theorem follow_all_terminates_witness:
  "valid_grammar latin_db G_ab \<and> caches_ok G_ab empty_caches \<and>
   (\<exists>fo s' s0.
      follow_all (follow_bound G_ab) latin_db G_ab empty_caches = Some (Inr (fo, s')) \<and>
      follow_pass (follow_bound G_ab) latin_db G_ab (productions G_ab) False s0
        = Some (Inr (False, s')) \<and>
      follow_cache s0 = fo)"
  using follow_all_terminates[OF valid_grammar_G_ab caches_ok_empty order_refl]
    valid_grammar_G_ab caches_ok_empty
  by blast

section \<open>Prediction sets of the script's first grammar\<close>

lemma latin_db_ej1:
  "is_nonterminal latin_db [83]" "is_nonterminal latin_db [65]" "is_nonterminal latin_db [66]"
  "is_nonterminal latin_db [67]" "is_nonterminal latin_db [68]"
  "\<not> is_nonterminal latin_db [949]"
  "\<not> is_nonterminal latin_db [117, 110, 111]" "\<not> is_nonterminal latin_db [100, 111, 115]"
  "\<not> is_nonterminal latin_db [116, 114, 101, 115]"
  "\<not> is_nonterminal latin_db [99, 117, 97, 116, 114, 111]"
  "\<not> is_nonterminal latin_db [99, 105, 110, 99, 111]"
  by (simp_all add: is_nonterminal_def str_isalpha_def str_isupper_def latin_db_def)

lemma key_unique_G_ej1: "key_unique G_ej1 (lit ''A'') [lit ''A'', lit ''tres'']"
  by (auto simp: key_unique_def all_productions_def G_ej1_def key_def lit_def EPS_def)

lemma valid_grammar_G_ej1: "valid_grammar latin_db G_ej1"
  using latin_db_ej1
  by (auto simp: valid_grammar_def keys_of_def syms_of_def G_ej1_def lit_def EPS_def)

lemma prediction_sets_G_ej1:
  "(case prediction_sets (Suc (Suc (Suc (Suc 0)))) latin_db G_ej1 empty_caches of
      Some (Inr (preds, s')) \<Rightarrow>
        preds (key (lit ''A'') [lit ''A'', lit ''tres'']) = Some {lit ''cuatro''} \<and>
        first (Suc 0) latin_db G_ej1 (lit ''A'') s' = Some ({lit ''cuatro'', EPS}, s') \<and>
        first_rhs_cache s' [lit ''A'', lit ''tres''] = Some {lit ''cuatro''} \<and>
        map_option fst
          (first_of_sequence_spec (Suc 0) latin_db G_ej1 [lit ''A'', lit ''tres''] s')
          = Some {lit ''cuatro'', lit ''tres''}
    | _ \<Rightarrow> False)"
  using latin_db_ej1
  by (simp add: prediction_sets_def follow_all_def propagate_def G_ej1_def lit_def EPS_def
        DOLLAR_def empty_caches_def Let_def alternatives_def insert_commute key_def
        first_of_sequence_spec_def scan_step_go)

text \<open>
  C1. The claim is that the entry of every production is
  \<open>(FIRST(\<alpha>) - {\<epsilon>}) \<union> (FOLLOW(A) if \<epsilon> \<in> FIRST(\<alpha>) else \<emptyset>)\<close>, as recomputed from the FIRST
  and FOLLOW maps that the analyzer returns. The code breaks it on the first grammar of its
  own script, on a fresh analyzer: the entry of \<open>A \<rightarrow> A tres\<close>, whose key no other
  production has, is \<open>{cuatro}\<close>; \<open>first('A')\<close> then returns \<open>{cuatro, \<epsilon>}\<close>, so the scan of
  \<open>A tres\<close> yields \<open>{cuatro, tres}\<close>. The entry was built from the set that the sequence
  cache holds for \<open>A tres\<close>, computed while \<open>first('A')\<close> had not yet met \<open>A \<rightarrow> \<epsilon>\<close>.
  The grammar is structurally valid (\<open>valid_grammar_G_ej1\<close>) and the key is the production's
  own (\<open>key_unique_G_ej1\<close>).
\<close>

theorem prediction_sets_stale:
  "(case prediction_sets (Suc (Suc (Suc (Suc 0)))) latin_db G_ej1 empty_caches of
      Some (Inr (preds, s')) \<Rightarrow>
        preds (key (lit ''A'') [lit ''A'', lit ''tres'']) = Some {lit ''cuatro''} \<and>
        first (Suc 0) latin_db G_ej1 (lit ''A'') s' = Some ({lit ''cuatro'', EPS}, s') \<and>
        first_rhs_cache s' [lit ''A'', lit ''tres''] = Some {lit ''cuatro''} \<and>
        map_option fst
          (first_of_sequence_spec (Suc 0) latin_db G_ej1 [lit ''A'', lit ''tres''] s')
          = Some {lit ''cuatro'', lit ''tres''}
    | _ \<Rightarrow> False) \<and>
   {lit ''cuatro''} \<noteq> {lit ''cuatro'', lit ''tres''} - {EPS}"
proof -
  have "{lit ''cuatro''} \<noteq> {lit ''cuatro'', lit ''tres''} - {EPS}"
    by (auto simp: lit_def EPS_def)
  with prediction_sets_G_ej1 show ?thesis
    by blast
qed

end
